theory Spec2Isabelle
  imports Main "HOL-Library.Word"
begin

unbundle bit_operations_syntax

section \<open>chidb: the B-Tree file and the table cursor\<close>

text \<open>
  A shallow embedding of \<^verbatim>\<open>src/libchidb/btree.c\<close> and \<^verbatim>\<open>src/libchidb/dbm-cursor.c\<close>.
  Machine integers are words of the width the C types have: \<^verbatim>\<open>uint8_t\<close> is
  \<open>8 word\<close>, \<^verbatim>\<open>uint16_t\<close> and \<^verbatim>\<open>ncell_t\<close> are \<open>16 word\<close>, \<^verbatim>\<open>uint32_t\<close>,
  \<^verbatim>\<open>npage_t\<close> and \<^verbatim>\<open>chidb_key_t\<close> are \<open>32 word\<close>. A page buffer is a list of
  bytes; a pointer into a page is the offset from the start of the buffer.
\<close>

type_synonym byte = "8 word"
type_synonym uint16_t = "16 word"
type_synonym uint32_t = "32 word"
type_synonym ncell_t = "16 word"
type_synonym npage_t = "32 word"
type_synonym chidb_key_t = "32 word"

text \<open>
  The status codes. \<open>CHIDB_TRUE\<close> is the integer 1 that
  \<^verbatim>\<open>chidb_Btree_initEmptyNode\<close> returns when its page read fails: there \<^verbatim>\<open>err\<close> is
  assigned the result of the comparison, not the pager's code.
\<close>

datatype status =
    CHIDB_OK | CHIDB_DONE | CHIDB_ENOTFOUND | CHIDB_EDUPLICATE | CHIDB_ECELLNO
  | CHIDB_EPAGENO | CHIDB_ECORRUPTHEADER | CHIDB_ENOMEM | CHIDB_EIO | CHIDB_CANTMOVE
  | CHIDB_NOHEADER | CHIDB_TRUE

subsection \<open>Bytes in a page buffer\<close>

text \<open>
  C leaves a load or store outside the buffer undefined. A load of the model outside
  the buffer reads 0. \<open>put_bytes\<close> is the store at the fixed offsets of the file
  header and the node header, which lie inside every page of 112 bytes or more; it
  keeps only the bytes that fall inside the buffer. \<open>store_bytes\<close> is the store at an
  offset that the caller gives (\<^verbatim>\<open>chidb_Btree_insertCell\<close>): it has no result when a
  byte falls outside the buffer.
\<close>

definition byte_at :: "byte list \<Rightarrow> nat \<Rightarrow> byte" where
  "byte_at p i = (if i < length p then p ! i else 0)"

fun write_bytes :: "byte list \<Rightarrow> nat \<Rightarrow> byte list \<Rightarrow> byte list" where
  "write_bytes p off [] = p"
| "write_bytes p off (b # bs) = write_bytes (p[off := b]) (Suc off) bs"

definition put_bytes :: "byte list \<Rightarrow> int \<Rightarrow> byte list \<Rightarrow> byte list" where
  "put_bytes p off bs =
     (if 0 \<le> off then write_bytes p (nat off) bs else write_bytes p 0 (drop (nat (- off)) bs))"

definition store_bytes :: "byte list \<Rightarrow> int \<Rightarrow> byte list \<Rightarrow> byte list option" where
  "store_bytes p off bs =
     (if 0 \<le> off \<and> nat off + length bs \<le> length p then Some (write_bytes p (nat off) bs)
      else None)"

definition read_bytes :: "byte list \<Rightarrow> nat \<Rightarrow> nat \<Rightarrow> byte list" where
  "read_bytes p off n = map (byte_at p) [off ..< off + n]"

text \<open>
  Modelled from the spec: \<^verbatim>\<open>get2byte\<close>, \<^verbatim>\<open>put2byte\<close>, \<^verbatim>\<open>get4byte\<close>, \<^verbatim>\<open>put4byte\<close>,
  \<^verbatim>\<open>getVarint32\<close> and \<^verbatim>\<open>putVarint32\<close> are declared in \<^verbatim>\<open>util.h\<close>, which is not
  among the sources. The spec: all multi-byte integers are big-endian; keys and leaf
  sizes use a 32-bit varint of fixed on-disk size 4, 7 bits per byte, the high bit of
  a byte being the continuation mark.
\<close>

definition get2byte :: "byte list \<Rightarrow> nat \<Rightarrow> uint16_t" where
  "get2byte p off = push_bit 8 (ucast (byte_at p off)) OR ucast (byte_at p (off + 1))"

definition put2byte :: "byte list \<Rightarrow> int \<Rightarrow> uint16_t \<Rightarrow> byte list" where
  "put2byte p off v = put_bytes p off [ucast (drop_bit 8 v), ucast v]"

definition get4byte :: "byte list \<Rightarrow> nat \<Rightarrow> uint32_t" where
  "get4byte p off =
     push_bit 24 (ucast (byte_at p off)) OR push_bit 16 (ucast (byte_at p (off + 1)))
     OR push_bit 8 (ucast (byte_at p (off + 2))) OR ucast (byte_at p (off + 3))"

definition put4byte :: "byte list \<Rightarrow> int \<Rightarrow> uint32_t \<Rightarrow> byte list" where
  "put4byte p off v =
     put_bytes p off [ucast (drop_bit 24 v), ucast (drop_bit 16 v), ucast (drop_bit 8 v), ucast v]"

definition getVarint32 :: "byte list \<Rightarrow> nat \<Rightarrow> uint32_t" where
  "getVarint32 p off =
     push_bit 21 (ucast (byte_at p off AND 0x7F))
     OR push_bit 14 (ucast (byte_at p (off + 1) AND 0x7F))
     OR push_bit 7 (ucast (byte_at p (off + 2) AND 0x7F))
     OR ucast (byte_at p (off + 3) AND 0x7F)"

text \<open>
  The bytes that \<^verbatim>\<open>put2byte\<close>, \<^verbatim>\<open>put4byte\<close> and \<^verbatim>\<open>putVarint32\<close> store.
\<close>

definition bytes2 :: "uint16_t \<Rightarrow> byte list" where
  "bytes2 v = [ucast (drop_bit 8 v), ucast v]"

definition bytes4 :: "uint32_t \<Rightarrow> byte list" where
  "bytes4 v = [ucast (drop_bit 24 v), ucast (drop_bit 16 v), ucast (drop_bit 8 v), ucast v]"

definition varint4 :: "uint32_t \<Rightarrow> byte list" where
  "varint4 v =
     [ucast (drop_bit 21 v AND 0x7F) OR 0x80, ucast (drop_bit 14 v AND 0x7F) OR 0x80,
      ucast (drop_bit 7 v AND 0x7F) OR 0x80, ucast (v AND 0x7F)]"

text \<open>
  \<^verbatim>\<open>memmove(dst, src, n)\<close> inside one buffer. The count is a \<^verbatim>\<open>ptrdiff_t\<close> in the
  source, which \<^verbatim>\<open>memmove\<close> takes as a \<^verbatim>\<open>size_t\<close>: a negative count is a count
  above any buffer. The model has no result for it, nor for a count that leaves the
  buffer at either end.
\<close>

definition memmove :: "byte list \<Rightarrow> nat \<Rightarrow> nat \<Rightarrow> int \<Rightarrow> byte list option" where
  "memmove p dst src n =
     (if 0 \<le> n \<and> src + nat n \<le> length p \<and> dst + nat n \<le> length p
      then Some (write_bytes p dst (read_bytes p src (nat n))) else None)"

subsection \<open>Constants of the file format\<close>

text \<open>
  Modelled from the spec: the macros below are declared in \<^verbatim>\<open>btree.h\<close> and
  \<^verbatim>\<open>chidbInt.h\<close>, which are not among the sources. Their values are the ones of the
  spec's data model (type codes, node header fields, cell layouts, the file header);
  \<^verbatim>\<open>chidb_Btree_getNodeByPage\<close> and \<^verbatim>\<open>chidb_Btree_open\<close> use the same offsets as
  literals.
\<close>

definition PGTYPE_TABLE_INTERNAL :: byte where "PGTYPE_TABLE_INTERNAL = 0x05"
definition PGTYPE_TABLE_LEAF :: byte where "PGTYPE_TABLE_LEAF = 0x0D"
definition PGTYPE_INDEX_INTERNAL :: byte where "PGTYPE_INDEX_INTERNAL = 0x02"
definition PGTYPE_INDEX_LEAF :: byte where "PGTYPE_INDEX_LEAF = 0x0A"

definition PGHEADER_PGTYPE_OFFSET :: nat where "PGHEADER_PGTYPE_OFFSET = 0"
definition PGHEADER_FREE_OFFSET :: nat where "PGHEADER_FREE_OFFSET = 1"
definition PGHEADER_NCELLS_OFFSET :: nat where "PGHEADER_NCELLS_OFFSET = 3"
definition PGHEADER_CELL_OFFSET :: nat where "PGHEADER_CELL_OFFSET = 5"
definition PGHEADER_ZERO_OFFSET :: nat where "PGHEADER_ZERO_OFFSET = 7"
definition PGHEADER_RIGHTPG_OFFSET :: nat where "PGHEADER_RIGHTPG_OFFSET = 8"

definition LEAFPG_CELLSOFFSET_OFFSET :: nat where "LEAFPG_CELLSOFFSET_OFFSET = 8"
definition INTPG_CELLSOFFSET_OFFSET :: nat where "INTPG_CELLSOFFSET_OFFSET = 12"

definition TABLEINTCELL_CHILD_OFFSET :: nat where "TABLEINTCELL_CHILD_OFFSET = 0"
definition TABLEINTCELL_KEY_OFFSET :: nat where "TABLEINTCELL_KEY_OFFSET = 4"
definition TABLEINTCELL_SIZE :: nat where "TABLEINTCELL_SIZE = 8"

definition TABLELEAFCELL_SIZE_OFFSET :: nat where "TABLELEAFCELL_SIZE_OFFSET = 0"
definition TABLELEAFCELL_KEY_OFFSET :: nat where "TABLELEAFCELL_KEY_OFFSET = 4"
definition TABLELEAFCELL_DATA_OFFSET :: nat where "TABLELEAFCELL_DATA_OFFSET = 8"
definition TABLELEAFCELL_SIZE_WITHOUTDATA :: nat where "TABLELEAFCELL_SIZE_WITHOUTDATA = 8"

definition INDEXINTCELL_CHILD_OFFSET :: nat where "INDEXINTCELL_CHILD_OFFSET = 0"
definition INDEXINTCELL_MAGIC_OFFSET :: nat where "INDEXINTCELL_MAGIC_OFFSET = 4"
definition INDEXINTCELL_KEYIDX_OFFSET :: nat where "INDEXINTCELL_KEYIDX_OFFSET = 8"
definition INDEXINTCELL_KEYPK_OFFSET :: nat where "INDEXINTCELL_KEYPK_OFFSET = 12"
definition INDEXINTCELL_SIZE :: nat where "INDEXINTCELL_SIZE = 16"

definition INDEXLEAFCELL_MAGIC_OFFSET :: nat where "INDEXLEAFCELL_MAGIC_OFFSET = 0"
definition INDEXLEAFCELL_KEYIDX_OFFSET :: nat where "INDEXLEAFCELL_KEYIDX_OFFSET = 4"
definition INDEXLEAFCELL_KEYPK_OFFSET :: nat where "INDEXLEAFCELL_KEYPK_OFFSET = 8"
definition INDEXLEAFCELL_SIZE :: nat where "INDEXLEAFCELL_SIZE = 12"

definition HEADER_PAGESIZE :: nat where "HEADER_PAGESIZE = 0x10"
definition HEADER_JUNK :: nat where "HEADER_JUNK = 0x12"
definition HEADER_FILECHANGE :: nat where "HEADER_FILECHANGE = 0x18"
definition HEADER_EMPTY :: nat where "HEADER_EMPTY = 0x20"
definition HEADER_SCHEMA :: nat where "HEADER_SCHEMA = 0x28"
definition HEADER_ONE :: nat where "HEADER_ONE = 0x2C"
definition HEADER_PAGECACHESIZE :: nat where "HEADER_PAGECACHESIZE = 0x30"
definition HEADER_EMPTYONE :: nat where "HEADER_EMPTYONE = 0x34"
definition HEADER_COOKIE :: nat where "HEADER_COOKIE = 0x3C"
definition HEADER_ZERO :: nat where "HEADER_ZERO = 0x40"
definition HEADER_END :: nat where "HEADER_END = 99"

definition DEFAULT_PAGE_SIZE :: uint16_t where "DEFAULT_PAGE_SIZE = 1024"

lemmas format_defs =
  PGTYPE_TABLE_INTERNAL_def PGTYPE_TABLE_LEAF_def PGTYPE_INDEX_INTERNAL_def
  PGTYPE_INDEX_LEAF_def PGHEADER_PGTYPE_OFFSET_def PGHEADER_FREE_OFFSET_def
  PGHEADER_NCELLS_OFFSET_def PGHEADER_CELL_OFFSET_def PGHEADER_ZERO_OFFSET_def
  PGHEADER_RIGHTPG_OFFSET_def LEAFPG_CELLSOFFSET_OFFSET_def INTPG_CELLSOFFSET_OFFSET_def
  TABLEINTCELL_CHILD_OFFSET_def TABLEINTCELL_KEY_OFFSET_def TABLEINTCELL_SIZE_def
  TABLELEAFCELL_SIZE_OFFSET_def TABLELEAFCELL_KEY_OFFSET_def TABLELEAFCELL_DATA_OFFSET_def
  TABLELEAFCELL_SIZE_WITHOUTDATA_def INDEXINTCELL_CHILD_OFFSET_def
  INDEXINTCELL_MAGIC_OFFSET_def INDEXINTCELL_KEYIDX_OFFSET_def INDEXINTCELL_KEYPK_OFFSET_def
  INDEXINTCELL_SIZE_def INDEXLEAFCELL_MAGIC_OFFSET_def INDEXLEAFCELL_KEYIDX_OFFSET_def
  INDEXLEAFCELL_KEYPK_OFFSET_def INDEXLEAFCELL_SIZE_def HEADER_PAGESIZE_def HEADER_JUNK_def
  HEADER_FILECHANGE_def HEADER_EMPTY_def HEADER_SCHEMA_def HEADER_ONE_def
  HEADER_PAGECACHESIZE_def HEADER_EMPTYONE_def HEADER_COOKIE_def HEADER_ZERO_def
  HEADER_END_def DEFAULT_PAGE_SIZE_def

subsection \<open>The pager\<close>

text \<open>
  Modelled from the spec: the pager (\<^verbatim>\<open>pager.c\<close>) is not among the sources. The spec's
  contract: it partitions the file into fixed-size pages numbered from 1, serves a
  page read as an in-memory buffer of its own, accepts page writes, allocates a new
  page by extending the file, stores the configured page size, and reads the 100-byte
  file header. The file is kept as its pages; a read returns a buffer of exactly
  \<open>page_size\<close> bytes, zero where the file holds nothing, and fails with
  \<open>CHIDB_EPAGENO\<close> on a page number that is 0 or beyond \<open>n_pages\<close>.
\<close>

record Pager =
  page_size :: uint16_t
  n_pages :: npage_t
  pages :: "npage_t \<Rightarrow> byte list"

record MemPage =
  npage :: npage_t
  data :: "byte list"

type_synonym BTree = Pager

definition chidb_Pager_setPageSize :: "Pager \<Rightarrow> uint16_t \<Rightarrow> Pager" where
  "chidb_Pager_setPageSize pager pagesize = pager\<lparr>page_size := pagesize\<rparr>"

definition chidb_Pager_readHeader :: "Pager \<Rightarrow> status + byte list" where
  "chidb_Pager_readHeader pager =
     (if length (pages pager 1) < 100 then Inl CHIDB_NOHEADER
      else Inr (take 100 (pages pager 1)))"

definition chidb_Pager_allocatePage :: "Pager \<Rightarrow> npage_t \<times> Pager" where
  "chidb_Pager_allocatePage pager =
     (n_pages pager + 1, pager\<lparr>n_pages := n_pages pager + 1\<rparr>)"

definition chidb_Pager_readPage :: "Pager \<Rightarrow> npage_t \<Rightarrow> status + MemPage" where
  "chidb_Pager_readPage pager n =
     (if n = 0 \<or> n_pages pager < n then Inl CHIDB_EPAGENO
      else Inr \<lparr>npage = n,
                data = take (unat (page_size pager))
                         (pages pager n @ replicate (unat (page_size pager)) 0)\<rparr>)"

definition chidb_Pager_writePage :: "Pager \<Rightarrow> MemPage \<Rightarrow> status \<times> Pager" where
  "chidb_Pager_writePage pager pg =
     (CHIDB_OK, pager\<lparr>pages := (pages pager)(npage pg := data pg)\<rparr>)"

definition chidb_Pager_releaseMemPage :: "Pager \<Rightarrow> MemPage \<Rightarrow> status" where
  "chidb_Pager_releaseMemPage pager pg = CHIDB_OK"

subsection \<open>Nodes and cells\<close>

text \<open>
  \<^verbatim>\<open>BTreeNode\<close>: \<open>celloffset_array\<close> is the offset of the cell offset array in the
  page buffer. \<^verbatim>\<open>BTreeCell\<close>: the fields of the union's four variants side by side
  (\<open>child_page\<close> stands for both \<^verbatim>\<open>tableInternal.child_page\<close> and
  \<^verbatim>\<open>indexInternal.child_page\<close>, \<open>keyPk\<close> for both \<^verbatim>\<open>keyPk\<close>). \<open>cdata\<close> is what
  \<^verbatim>\<open>tableLeaf.data\<close> points to: the bytes from the pointer to the end of its buffer.
\<close>

record BTreeNode =
  page :: MemPage
  ntype :: byte
  free_offset :: uint16_t
  n_cells :: ncell_t
  cells_offset :: uint16_t
  right_page :: npage_t
  celloffset_array :: nat

record BTreeCell =
  ctype :: byte
  ckey :: chidb_key_t
  child_page :: npage_t
  data_size :: uint32_t
  cdata :: "byte list"
  keyPk :: chidb_key_t

text \<open>
  \<^verbatim>\<open>chidb_Btree_getNodeByPage\<close> (btree.c:200). The source leaves \<^verbatim>\<open>right_page\<close> of a
  leaf uninitialised; the model reads 0 there.
\<close>

definition chidb_Btree_getNodeByPage :: "BTree \<Rightarrow> npage_t \<Rightarrow> status + BTreeNode" where
  "chidb_Btree_getNodeByPage bt n =
     (case chidb_Pager_readPage bt n of
        Inl err \<Rightarrow> Inl err
      | Inr pg \<Rightarrow>
          let base = (if n = 1 then 100 else 0);
              ty = byte_at (data pg) base
          in Inr \<lparr>page = pg,
                  ntype = ty,
                  free_offset = get2byte (data pg) (base + 1),
                  n_cells = get2byte (data pg) (base + 3),
                  cells_offset = get2byte (data pg) (base + 5),
                  right_page = (if ty = 0x05 \<or> ty = 0x02 then get4byte (data pg) (base + 8) else 0),
                  celloffset_array = (if ty = 0x05 \<or> ty = 0x02 then base + 12 else base + 8)\<rparr>)"

definition chidb_Btree_freeMemNode :: "BTree \<Rightarrow> BTreeNode \<Rightarrow> status" where
  "chidb_Btree_freeMemNode bt btn = CHIDB_OK"

text \<open>\<^verbatim>\<open>chidb_Btree_initEmptyNode\<close> (btree.c:301) and \<^verbatim>\<open>chidb_Btree_newNode\<close> (btree.c:276).\<close>

definition write_file_header :: "byte list \<Rightarrow> uint16_t \<Rightarrow> byte list" where
  "write_file_header d psize =
     (let d = put_bytes d 0 (map (of_nat \<circ> of_char) ''SQLite format 3'' @ [0]);
          d = put2byte d (int HEADER_PAGESIZE) psize;
          d = put_bytes d (int HEADER_JUNK) [0x01, 0x01, 0x00, 0x40, 0x20, 0x20];
          d = put4byte d (int HEADER_FILECHANGE) 0;
          d = put4byte d (int HEADER_EMPTY) 0;
          d = put4byte d (int HEADER_EMPTY + 4) 0;
          d = put4byte d (int HEADER_SCHEMA) 0;
          d = put4byte d (int HEADER_ONE) 1;
          d = put4byte d (int HEADER_PAGECACHESIZE) 20000;
          d = put4byte d (int HEADER_EMPTYONE) 0;
          d = put4byte d (int HEADER_EMPTYONE + 4) 1;
          d = put4byte d (int HEADER_COOKIE) 0;
          d = put4byte d (int HEADER_ZERO) 0
      in d)"

definition chidb_Btree_initEmptyNode :: "BTree \<Rightarrow> npage_t \<Rightarrow> byte \<Rightarrow> status \<times> BTree" where
  "chidb_Btree_initEmptyNode bt n ty =
     (case chidb_Pager_readPage bt n of
        Inl err \<Rightarrow> (CHIDB_TRUE, bt)
      | Inr pg \<Rightarrow>
          let d = data pg;
              d = (if n = 1 then write_file_header d (page_size bt) else d);
              base = (if n = 1 then HEADER_END + 1 else 0);
              d = (if ty = PGTYPE_TABLE_INTERNAL \<or> ty = PGTYPE_INDEX_INTERNAL
                   then put2byte d (int (base + PGHEADER_FREE_OFFSET))
                          (of_nat (base + INTPG_CELLSOFFSET_OFFSET))
                   else put2byte d (int (base + PGHEADER_FREE_OFFSET))
                          (of_nat (base + LEAFPG_CELLSOFFSET_OFFSET)));
              d = put_bytes d (int (base + PGHEADER_PGTYPE_OFFSET)) [ty];
              d = put2byte d (int (base + PGHEADER_NCELLS_OFFSET)) 0;
              d = put2byte d (int (base + PGHEADER_CELL_OFFSET)) (page_size bt);
              d = put_bytes d (int (base + PGHEADER_ZERO_OFFSET)) [0];
              d = (if ty = of_nat INTPG_CELLSOFFSET_OFFSET \<or> ty = of_nat LEAFPG_CELLSOFFSET_OFFSET
                   then put4byte d (int (base + PGHEADER_RIGHTPG_OFFSET)) 0 else d)
          in (case chidb_Pager_writePage bt (pg\<lparr>data := d\<rparr>) of
                (err, bt') \<Rightarrow>
                  if err \<noteq> CHIDB_OK then (err, bt')
                  else (chidb_Pager_releaseMemPage bt' (pg\<lparr>data := d\<rparr>), bt')))"

definition chidb_Btree_newNode :: "BTree \<Rightarrow> byte \<Rightarrow> status \<times> npage_t \<times> BTree" where
  "chidb_Btree_newNode bt ty =
     (case chidb_Pager_allocatePage bt of
        (n, bt') \<Rightarrow> (case chidb_Btree_initEmptyNode bt' n ty of (err, bt'') \<Rightarrow> (err, n, bt'')))"

text \<open>\<^verbatim>\<open>chidb_Btree_writeNode\<close> (btree.c:405).\<close>

definition chidb_Btree_writeNode :: "BTree \<Rightarrow> BTreeNode \<Rightarrow> status \<times> BTree" where
  "chidb_Btree_writeNode bt btn =
     (let pg = page btn;
          base = (if npage pg = 1 then 100 else 0);
          d = data pg;
          d = put_bytes d (int (base + PGHEADER_PGTYPE_OFFSET)) [ntype btn];
          d = put2byte d (int (base + PGHEADER_FREE_OFFSET)) (free_offset btn);
          d = put2byte d (int (base + PGHEADER_NCELLS_OFFSET)) (n_cells btn);
          d = put2byte d (int (base + PGHEADER_CELL_OFFSET)) (cells_offset btn);
          d = (if ntype btn = PGTYPE_TABLE_INTERNAL \<or> ntype btn = PGTYPE_INDEX_INTERNAL
               then put4byte d (int (base + PGHEADER_RIGHTPG_OFFSET)) (right_page btn) else d)
      in chidb_Pager_writePage bt (pg\<lparr>data := d\<rparr>))"

text \<open>
  \<^verbatim>\<open>chidb_Btree_getCell\<close> (btree.c:445). \<^verbatim>\<open>ncell_t\<close> is unsigned, so the test
  \<^verbatim>\<open>ncell < 0\<close> never holds. The fields of the other variants, which the source leaves
  as they were in the caller's struct, are 0 and empty in the model.
\<close>

definition chidb_Btree_getCell :: "BTreeNode \<Rightarrow> ncell_t \<Rightarrow> status + BTreeCell" where
  "chidb_Btree_getCell btn ncell =
     (if n_cells btn < ncell \<or> ncell < 0 then Inl CHIDB_ECELLNO
      else
        let d = data (page btn);
            offset = get2byte d (celloffset_array btn + unat ncell * 2);
            cell_data = unat offset;
            cell = \<lparr>ctype = ntype btn, ckey = 0, child_page = 0, data_size = 0, cdata = [],
                    keyPk = 0\<rparr>
        in if ctype cell = PGTYPE_TABLE_INTERNAL then
             Inr (cell\<lparr>child_page := get4byte d (cell_data + TABLEINTCELL_CHILD_OFFSET),
                       ckey := getVarint32 d (cell_data + TABLEINTCELL_KEY_OFFSET)\<rparr>)
           else if ctype cell = PGTYPE_TABLE_LEAF then
             Inr (cell\<lparr>data_size := getVarint32 d (cell_data + TABLELEAFCELL_SIZE_OFFSET),
                       ckey := getVarint32 d (cell_data + TABLELEAFCELL_KEY_OFFSET),
                       cdata := drop (cell_data + TABLELEAFCELL_DATA_OFFSET) d\<rparr>)
           else if ctype cell = PGTYPE_INDEX_INTERNAL then
             Inr (cell\<lparr>child_page := get4byte d (cell_data + INDEXINTCELL_CHILD_OFFSET),
                       ckey := get4byte d (cell_data + INDEXINTCELL_KEYIDX_OFFSET),
                       keyPk := get4byte d (cell_data + INDEXINTCELL_KEYPK_OFFSET)\<rparr>)
           else
             Inr (cell\<lparr>ckey := get4byte d (cell_data + INDEXLEAFCELL_KEYIDX_OFFSET),
                       keyPk := get4byte d (cell_data + INDEXLEAFCELL_KEYPK_OFFSET)\<rparr>))"

text \<open>
  \<^verbatim>\<open>chidb_Btree_insertCell\<close> (btree.c:522). \<^verbatim>\<open>length\<close> is an \<^verbatim>\<open>int\<close>; for a table
  leaf cell it is the 32-bit sum \<^verbatim>\<open>size + 8\<close>. The function checks neither the cell
  number nor the room in the page. A store that leaves the page buffer, a
  \<^verbatim>\<open>memcpy\<close> of more bytes than \<open>cdata\<close> holds and a \<^verbatim>\<open>memmove\<close> with a negative
  count are undefined in C: there the model has no result (\<open>None\<close>). Stores inside the
  buffer happen where the source makes them, also over the node header or over
  other cells.
\<close>

definition cell_length :: "BTreeCell \<Rightarrow> int" where
  "cell_length cell =
     (if ctype cell = PGTYPE_TABLE_INTERNAL then int TABLEINTCELL_SIZE
      else if ctype cell = PGTYPE_TABLE_LEAF
        then sint (data_size cell + of_nat TABLELEAFCELL_SIZE_WITHOUTDATA)
      else if ctype cell = PGTYPE_INDEX_INTERNAL then int INDEXINTCELL_SIZE
      else int INDEXLEAFCELL_SIZE)"

definition index_magic :: "byte list" where
  "index_magic = [0x0B, 0x03, 0x04, 0x04]"

definition memcpy_from :: "byte list \<Rightarrow> int \<Rightarrow> byte list \<Rightarrow> nat \<Rightarrow> byte list option" where
  "memcpy_from d at src n = (if n \<le> length src then store_bytes d at (take n src) else None)"

definition serialize_cell :: "byte list \<Rightarrow> int \<Rightarrow> BTreeCell \<Rightarrow> byte list option" where
  "serialize_cell d at cell =
     (if ctype cell = PGTYPE_TABLE_INTERNAL then
        Option.bind (store_bytes d (at + int TABLEINTCELL_CHILD_OFFSET) (bytes4 (child_page cell)))
          (\<lambda>d. store_bytes d (at + int TABLEINTCELL_KEY_OFFSET) (varint4 (ckey cell)))
      else if ctype cell = PGTYPE_TABLE_LEAF then
        Option.bind (store_bytes d (at + int TABLELEAFCELL_SIZE_OFFSET) (varint4 (data_size cell)))
          (\<lambda>d. Option.bind
                  (store_bytes d (at + int TABLELEAFCELL_KEY_OFFSET) (varint4 (ckey cell)))
                  (\<lambda>d. memcpy_from d (at + int TABLELEAFCELL_DATA_OFFSET) (cdata cell)
                         (unat (data_size cell))))
      else if ctype cell = PGTYPE_INDEX_INTERNAL then
        Option.bind (store_bytes d (at + int INDEXINTCELL_CHILD_OFFSET) (bytes4 (child_page cell)))
          (\<lambda>d. Option.bind (store_bytes d (at + int INDEXINTCELL_MAGIC_OFFSET) index_magic)
                  (\<lambda>d. Option.bind
                          (store_bytes d (at + int INDEXINTCELL_KEYIDX_OFFSET) (bytes4 (ckey cell)))
                          (\<lambda>d. store_bytes d (at + int INDEXINTCELL_KEYPK_OFFSET)
                                 (bytes4 (keyPk cell)))))
      else
        Option.bind (store_bytes d (at + int INDEXLEAFCELL_MAGIC_OFFSET) index_magic)
          (\<lambda>d. Option.bind
                  (store_bytes d (at + int INDEXLEAFCELL_KEYIDX_OFFSET) (bytes4 (ckey cell)))
                  (\<lambda>d. store_bytes d (at + int INDEXLEAFCELL_KEYPK_OFFSET) (bytes4 (keyPk cell)))))"

definition chidb_Btree_insertCell ::
  "BTreeNode \<Rightarrow> ncell_t \<Rightarrow> BTreeCell \<Rightarrow> (status \<times> BTreeNode) option" where
  "chidb_Btree_insertCell btn ncell cell =
     (let len = cell_length cell;
          cells_offset' = cells_offset btn - word_of_int len;
          offset_newcell = celloffset_array btn + 2 * unat ncell
      in Option.bind
           (serialize_cell (data (page btn)) (int (unat (cells_offset btn)) - len) cell)
           (\<lambda>d. Option.bind
                   (memmove d (offset_newcell + 2) offset_newcell
                      (int (unat (free_offset btn)) - int offset_newcell))
                   (\<lambda>d. Option.bind (store_bytes d (int offset_newcell) (bytes2 cells_offset'))
                           (\<lambda>d. Some (CHIDB_OK,
                                   btn\<lparr>page := (page btn)\<lparr>data := d\<rparr>,
                                       n_cells := n_cells btn + 1,
                                       cells_offset := cells_offset',
                                       free_offset := free_offset btn + 2\<rparr>)))))"

subsection \<open>Opening a file\<close>

text \<open>
  \<^verbatim>\<open>chidb_Btree_open\<close> (btree.c:80). \<open>fsize\<close> is what \<^verbatim>\<open>fopen\<close> and \<^verbatim>\<open>ftell\<close>
  find: \<open>None\<close> when the file does not exist, else its size in bytes. The source
  keeps the size in an \<^verbatim>\<open>int\<close> (\<^verbatim>\<open>int size = ftell(file)\<close>): \<open>file_size_int\<close> is
  the 32-bit value that the conversion leaves. \<open>pager\<close> is the pager as
  \<^verbatim>\<open>chidb_Pager_open\<close> returned it; a failure of \<^verbatim>\<open>chidb_Pager_open\<close> or of
  \<^verbatim>\<open>malloc\<close> is not modelled. \<^verbatim>\<open>memcmp(a, header + off, n) == 0\<close> compares the
  \<open>n\<close> bytes at \<open>off\<close> with \<open>a\<close>.
\<close>

definition file_size_int :: "nat \<Rightarrow> int" where
  "file_size_int sz = sint (word_of_nat sz :: 32 word)"

definition magic_string :: "byte list" where
  "magic_string = map (of_nat \<circ> of_char) ''SQLite format 3''"

definition fourZeroes :: "byte list" where "fourZeroes = [0x00, 0x00, 0x00, 0x00]"
definition zeroAndOne :: "byte list" where "zeroAndOne = [0x00, 0x00, 0x00, 0x01]"
definition pageCacheSize :: "byte list" where "pageCacheSize = [0x00, 0x00, 0x4E, 0x20]"

definition header_check :: "byte list \<Rightarrow> bool" where
  "header_check header \<longleftrightarrow>
     read_bytes header 0 0x0F = magic_string \<and>
     read_bytes header 0x12 6 = [0x01, 0x01, 0x00, 0x40, 0x20, 0x20] \<and>
     read_bytes header 0x20 4 = fourZeroes \<and>
     read_bytes header 0x24 4 = fourZeroes \<and>
     read_bytes header 0x2C 4 = zeroAndOne \<and>
     read_bytes header 0x34 4 = fourZeroes \<and>
     read_bytes header 0x38 4 = zeroAndOne \<and>
     read_bytes header 0x40 4 = fourZeroes \<and>
     read_bytes header HEADER_FILECHANGE 4 = fourZeroes \<and>
     read_bytes header HEADER_SCHEMA 4 = fourZeroes \<and>
     read_bytes header HEADER_PAGECACHESIZE 4 = pageCacheSize \<and>
     read_bytes header HEADER_COOKIE 4 = fourZeroes"

definition chidb_Btree_open :: "nat option \<Rightarrow> Pager \<Rightarrow> status \<times> BTree" where
  "chidb_Btree_open fsize pager =
     (let newFile = (case fsize of None \<Rightarrow> True | Some sz \<Rightarrow> file_size_int sz = 0)
      in if \<not> newFile then
           (case chidb_Pager_readHeader pager of
              Inl err \<Rightarrow> (CHIDB_ECORRUPTHEADER, pager)
            | Inr header \<Rightarrow>
                if header_check header
                then (CHIDB_OK, chidb_Pager_setPageSize pager (get2byte header HEADER_PAGESIZE))
                else (CHIDB_ECORRUPTHEADER, pager))
         else
           (case chidb_Btree_newNode
                   ((chidb_Pager_setPageSize pager DEFAULT_PAGE_SIZE)\<lparr>n_pages := 0\<rparr>)
                   PGTYPE_TABLE_LEAF of
              (err, n, bt) \<Rightarrow> (err, bt)))"

subsection \<open>Key lookup\<close>

text \<open>
  \<^verbatim>\<open>chidb_Btree_find\<close> (btree.c:605). The loop over the cells is \<open>find_loop\<close>: it
  ends with what the function returns or with the page the function calls itself on.
  The source ignores the status of \<^verbatim>\<open>chidb_Btree_getCell\<close>, which fails only for a
  cell number above \<open>n_cells\<close>; the loop bound excludes that. The out-parameters
  \<^verbatim>\<open>data\<close> and \<^verbatim>\<open>size\<close> are \<open>Some\<close> when the function has set them; \<^verbatim>\<open>*size\<close> is
  a \<^verbatim>\<open>uint16_t\<close>, and \<^verbatim>\<open>memcpy\<close> copies \<^verbatim>\<open>*size\<close> bytes. A failure of \<^verbatim>\<open>malloc\<close> is not
  modelled. The function only reads pages and releases them, so the file it leaves is
  the one it was given.
\<close>

definition zero_cell :: BTreeCell where
  "zero_cell = \<lparr>ctype = 0, ckey = 0, child_page = 0, data_size = 0, cdata = [], keyPk = 0\<rparr>"

definition cell_of :: "status + BTreeCell \<Rightarrow> BTreeCell" where
  "cell_of r = (case r of Inl err \<Rightarrow> zero_cell | Inr cell \<Rightarrow> cell)"

datatype find_next = Return status "(byte list \<times> uint16_t) option" | Descend npage_t

function find_loop :: "BTreeNode \<Rightarrow> chidb_key_t \<Rightarrow> nat \<Rightarrow> find_next" where
  "find_loop node key i =
     (if i < unat (n_cells node) then
        (let cell = cell_of (chidb_Btree_getCell node (of_nat i))
         in if ckey cell = key \<and> ntype node = PGTYPE_TABLE_LEAF then
              Return CHIDB_OK
                (Some (take (unat (ucast (data_size cell) :: uint16_t)) (cdata cell),
                       ucast (data_size cell)))
            else if key \<le> ckey cell then
              (if ntype node = PGTYPE_TABLE_LEAF then Return CHIDB_ENOTFOUND None
               else Descend (child_page cell))
            else find_loop node key (Suc i))
      else if ntype node = PGTYPE_TABLE_LEAF then Return CHIDB_ENOTFOUND None
      else Descend (right_page node))"
  by pat_completeness auto
termination
  by (relation "measure (\<lambda>(node, key, i). unat (n_cells node) - i)") auto

partial_function (option) chidb_Btree_find ::
  "BTree \<Rightarrow> npage_t \<Rightarrow> chidb_key_t \<Rightarrow> ((status \<times> (byte list \<times> uint16_t) option) \<times> BTree) option"
where
  "chidb_Btree_find bt nroot key =
     (case chidb_Btree_getNodeByPage bt nroot of
        Inl err \<Rightarrow> Some ((err, None), bt)
      | Inr node \<Rightarrow>
          (case find_loop node key 0 of
             Return st out \<Rightarrow> Some ((st, out), bt)
           | Descend pg \<Rightarrow> chidb_Btree_find bt pg key))"

declare chidb_Btree_find.simps [code]

subsection \<open>Insertion and split\<close>

text \<open>
  \<^verbatim>\<open>chidb_Btree_insertInTable\<close> (btree.c:676) and \<^verbatim>\<open>would_overflow\<close> (btree.c:722),
  whose two sizes are \<^verbatim>\<open>uint16_t\<close>.
\<close>

definition table_cell :: "chidb_key_t \<Rightarrow> byte list \<Rightarrow> uint16_t \<Rightarrow> BTreeCell" where
  "table_cell key d sz =
     \<lparr>ctype = PGTYPE_TABLE_LEAF, ckey = key, child_page = 0, data_size = ucast sz,
      cdata = d, keyPk = 0\<rparr>"

definition would_overflow :: "BTreeNode \<Rightarrow> BTreeCell \<Rightarrow> bool" where
  "would_overflow node cell =
     (let available = cells_offset node - free_offset node;
          size_cell =
            (if ctype cell = PGTYPE_TABLE_INTERNAL then of_nat TABLEINTCELL_SIZE
             else if ctype cell = PGTYPE_TABLE_LEAF
               then ucast (of_nat TABLELEAFCELL_SIZE_WITHOUTDATA + data_size cell)
             else if ctype cell = PGTYPE_INDEX_INTERNAL then of_nat INDEXINTCELL_SIZE
             else of_nat INDEXLEAFCELL_SIZE) :: uint16_t
      in size_cell > available)"

text \<open>
  The loops that copy cells from one node into another (btree.c:778, 981, 1021, 1044):
  cell \<open>i\<close> of \<open>src\<close> becomes cell \<open>i - sh\<close> of \<open>dst\<close>, for \<open>i\<close> from \<open>lo\<close> up to
  \<open>hi\<close>. \<^verbatim>\<open>check_fail\<close> returns the first status that is not \<open>CHIDB_OK\<close>. \<open>None\<close>
  is the undefined behaviour of \<^verbatim>\<open>chidb_Btree_insertCell\<close>, here and in the callers
  below.
\<close>

function copy_cells ::
  "BTreeNode \<Rightarrow> BTreeNode \<Rightarrow> nat \<Rightarrow> nat \<Rightarrow> nat \<Rightarrow> (status + BTreeNode) option" where
  "copy_cells src dst i hi sh =
     (if i < hi then
        (case chidb_Btree_getCell src (of_nat i) of
           Inl err \<Rightarrow> Some (Inl err)
         | Inr cell \<Rightarrow>
             (case chidb_Btree_insertCell dst (of_nat (i - sh)) cell of
                None \<Rightarrow> None
              | Some (err, dst') \<Rightarrow>
                  if err \<noteq> CHIDB_OK then Some (Inl err) else copy_cells src dst' (Suc i) hi sh))
      else Some (Inr dst))"
  by pat_completeness auto
termination
  by (relation "measure (\<lambda>(src, dst, i, hi, sh). hi - i)") auto

text \<open>
  \<^verbatim>\<open>chidb_Btree_split\<close> (btree.c:952). The four nodes are buffers of their own, as the
  pager hands them out. The result is the status, \<^verbatim>\<open>*npage_child2\<close> and the file.
\<close>

definition promote :: "BTreeCell \<Rightarrow> byte \<Rightarrow> npage_t \<Rightarrow> BTreeCell" where
  "promote median_cell parent_type npage_child2 =
     (let c = (if ctype median_cell = PGTYPE_INDEX_LEAF
               then median_cell\<lparr>keyPk := keyPk median_cell\<rparr> else median_cell);
          c = c\<lparr>ctype := parent_type\<rparr>
      in if ctype c = PGTYPE_TABLE_INTERNAL then c\<lparr>child_page := npage_child2\<rparr>
         else if ctype c = PGTYPE_INDEX_INTERNAL then c\<lparr>child_page := npage_child2\<rparr>
         else c)"

definition split_write ::
  "BTree \<Rightarrow> BTreeNode \<Rightarrow> BTreeNode \<Rightarrow> BTreeNode \<Rightarrow> npage_t \<Rightarrow> status \<times> npage_t \<times> BTree" where
  "split_write bt parent child new_node npage_child2 =
     (case chidb_Btree_writeNode bt parent of
        (err, bt) \<Rightarrow>
          if err \<noteq> CHIDB_OK then (err, npage_child2, bt)
          else (case chidb_Btree_writeNode bt child of
            (err, bt) \<Rightarrow>
              if err \<noteq> CHIDB_OK then (err, npage_child2, bt)
              else (case chidb_Btree_writeNode bt new_node of
                (err, bt) \<Rightarrow>
                  if err \<noteq> CHIDB_OK then (err, npage_child2, bt)
                  else (CHIDB_OK, npage_child2, bt))))"

definition split_finish ::
  "BTree \<Rightarrow> BTreeNode \<Rightarrow> BTreeNode \<Rightarrow> BTreeNode \<Rightarrow> ncell_t \<Rightarrow> BTreeCell \<Rightarrow> npage_t
   \<Rightarrow> (status \<times> npage_t \<times> BTree) option" where
  "split_finish bt parent child new_node parent_ncell median_cell npage_child2 =
     (case chidb_Btree_insertCell parent parent_ncell
             (promote median_cell (ntype parent) npage_child2) of
        None \<Rightarrow> None
      | Some (err, parent) \<Rightarrow>
          if err \<noteq> CHIDB_OK then Some (err, npage_child2, bt)
          else Some (split_write (bt\<lparr>n_pages := n_pages bt - 1\<rparr>) parent child new_node
                       npage_child2))"

definition split_refill ::
  "BTree \<Rightarrow> BTreeNode \<Rightarrow> BTreeNode \<Rightarrow> BTreeNode \<Rightarrow> BTreeNode \<Rightarrow> npage_t \<Rightarrow> ncell_t
   \<Rightarrow> BTreeCell \<Rightarrow> npage_t \<Rightarrow> (status \<times> npage_t \<times> BTree) option" where
  "split_refill bt parent child new_node top_node npage_child parent_ncell median_cell npage_child2 =
     (let child_right = right_page child
      in (case chidb_Btree_initEmptyNode bt npage_child (ntype top_node) of
            (err, bt) \<Rightarrow>
              if err \<noteq> CHIDB_OK then Some (err, npage_child2, bt)
              else (case chidb_Btree_getNodeByPage bt npage_child of
                Inl err \<Rightarrow> Some (err, npage_child2, bt)
              | Inr child' \<Rightarrow>
                  (case copy_cells top_node (child'\<lparr>right_page := child_right\<rparr>) 0
                          (unat (n_cells top_node)) 0 of
                     None \<Rightarrow> None
                   | Some (Inl err) \<Rightarrow> Some (err, npage_child2, bt)
                   | Some (Inr child') \<Rightarrow>
                       split_finish bt parent child' new_node parent_ncell median_cell
                         npage_child2))))"

definition split_rebuild ::
  "BTree \<Rightarrow> BTreeNode \<Rightarrow> BTreeNode \<Rightarrow> BTreeNode \<Rightarrow> npage_t \<Rightarrow> ncell_t \<Rightarrow> BTreeCell
   \<Rightarrow> npage_t \<Rightarrow> nat \<Rightarrow> (status \<times> npage_t \<times> BTree) option" where
  "split_rebuild bt parent child new_node npage_child parent_ncell median_cell npage_child2 top_half =
     (case chidb_Btree_newNode bt (ntype child) of
        (err, top_page, bt) \<Rightarrow>
          if err \<noteq> CHIDB_OK then Some (err, npage_child2, bt)
          else (case chidb_Btree_getNodeByPage bt top_page of
            Inl err \<Rightarrow> Some (err, npage_child2, bt)
          | Inr top_node \<Rightarrow>
              (case copy_cells child top_node top_half (unat (n_cells child)) top_half of
                 None \<Rightarrow> None
               | Some (Inl err) \<Rightarrow> Some (err, npage_child2, bt)
               | Some (Inr top_node) \<Rightarrow>
                   split_refill bt parent child new_node top_node npage_child parent_ncell
                     median_cell npage_child2)))"

definition split_median ::
  "BTree \<Rightarrow> BTreeNode \<Rightarrow> BTreeNode \<Rightarrow> BTreeNode \<Rightarrow> npage_t \<Rightarrow> ncell_t \<Rightarrow> npage_t
   \<Rightarrow> ncell_t \<Rightarrow> BTreeCell \<Rightarrow> (status \<times> npage_t \<times> BTree) option" where
  "split_median bt parent child new_node npage_child parent_ncell npage_child2 median median_cell =
     (case (if ntype child = PGTYPE_TABLE_LEAF
            then chidb_Btree_insertCell new_node median median_cell
            else Some (CHIDB_OK, new_node)) of
        None \<Rightarrow> None
      | Some (err, new_node) \<Rightarrow>
          if err \<noteq> CHIDB_OK then Some (err, npage_child2, bt)
          else
            (let top_half = (if ntype child = PGTYPE_TABLE_LEAF then unat median + 1
                             else unat median);
                 new_node =
                   (if ntype child = PGTYPE_TABLE_INTERNAL
                    then new_node\<lparr>right_page := child_page median_cell\<rparr> else new_node);
                 new_node =
                   (if ntype child = PGTYPE_INDEX_INTERNAL
                    then new_node\<lparr>right_page := child_page median_cell\<rparr> else new_node)
             in split_rebuild bt parent child new_node npage_child parent_ncell median_cell
                  npage_child2 top_half))"

definition chidb_Btree_split ::
  "BTree \<Rightarrow> npage_t \<Rightarrow> npage_t \<Rightarrow> ncell_t \<Rightarrow> (status \<times> npage_t \<times> BTree) option" where
  "chidb_Btree_split bt npage_parent npage_child parent_ncell =
     (case chidb_Btree_getNodeByPage bt npage_parent of
        Inl err \<Rightarrow> Some (err, 0, bt)
      | Inr parent \<Rightarrow>
          (case chidb_Btree_getNodeByPage bt npage_child of
             Inl err \<Rightarrow> Some (err, 0, bt)
           | Inr child \<Rightarrow>
               (let median = n_cells child div 2
                in (case chidb_Btree_newNode bt (ntype child) of
                      (err, npage_child2, bt) \<Rightarrow>
                        if err \<noteq> CHIDB_OK then Some (err, npage_child2, bt)
                        else (case chidb_Btree_getNodeByPage bt npage_child2 of
                          Inl err \<Rightarrow> Some (err, npage_child2, bt)
                        | Inr new_node \<Rightarrow>
                            (case copy_cells child new_node 0 (unat median) 0 of
                               None \<Rightarrow> None
                             | Some (Inl err) \<Rightarrow> Some (err, npage_child2, bt)
                             | Some (Inr new_node) \<Rightarrow>
                                 (case chidb_Btree_getCell child median of
                                    Inl err \<Rightarrow> Some (err, npage_child2, bt)
                                  | Inr median_cell \<Rightarrow>
                                      split_median bt parent child new_node npage_child
                                        parent_ncell npage_child2 median median_cell)))))))"

text \<open>
  \<^verbatim>\<open>chidb_Btree_insertNonFull\<close> (btree.c:842). \<open>leaf_scan\<close> and \<open>internal_scan\<close> are
  its two loops: \<open>Dup\<close> when a cell holds the key, else the index where the loop stops,
  with the cell read last and whether the loop stopped on a greater key. \<open>None\<close> is
  also a descent that never ends.
\<close>

datatype scan = Dup | Stop nat bool BTreeCell

function leaf_scan :: "BTreeNode \<Rightarrow> chidb_key_t \<Rightarrow> nat \<Rightarrow> BTreeCell \<Rightarrow> scan" where
  "leaf_scan node key i search_cell =
     (if i < unat (n_cells node) then
        (let search_cell = cell_of (chidb_Btree_getCell node (of_nat i))
         in if key < ckey search_cell then Stop i True search_cell
            else if ckey search_cell = key then Dup
            else leaf_scan node key (Suc i) search_cell)
      else Stop i False search_cell)"
  by pat_completeness auto
termination
  by (relation "measure (\<lambda>(node, key, i, c). unat (n_cells node) - i)") auto

function internal_scan :: "BTreeNode \<Rightarrow> chidb_key_t \<Rightarrow> nat \<Rightarrow> BTreeCell \<Rightarrow> scan" where
  "internal_scan node key i search_cell =
     (if i < unat (n_cells node) then
        (let search_cell = cell_of (chidb_Btree_getCell node (of_nat i))
         in if ckey search_cell > key then Stop i True search_cell
            else if ckey search_cell = key then Dup
            else internal_scan node key (Suc i) search_cell)
      else Stop i False search_cell)"
  by pat_completeness auto
termination
  by (relation "measure (\<lambda>(node, key, i, c). unat (n_cells node) - i)") auto

declare leaf_scan.simps [simp del] internal_scan.simps [simp del] copy_cells.simps [simp del]

partial_function (option) chidb_Btree_insertNonFull ::
  "BTree \<Rightarrow> npage_t \<Rightarrow> BTreeCell \<Rightarrow> (status \<times> BTree) option"
where
  "chidb_Btree_insertNonFull bt n btc =
     (case chidb_Btree_getNodeByPage bt n of
        Inl err \<Rightarrow> Some (err, bt)
      | Inr node \<Rightarrow>
          if ntype node = PGTYPE_TABLE_LEAF \<or> ntype node = PGTYPE_INDEX_LEAF then
            (case leaf_scan node (ckey btc) 0 zero_cell of
               Dup \<Rightarrow> Some (CHIDB_EDUPLICATE, bt)
             | Stop i found search_cell \<Rightarrow>
                 (case chidb_Btree_insertCell node (of_nat i) btc of
                    None \<Rightarrow> None
                  | Some (st, node) \<Rightarrow>
                      (case chidb_Btree_writeNode bt node of
                         (err, bt) \<Rightarrow>
                           if err \<noteq> CHIDB_OK then Some (err, bt) else Some (CHIDB_OK, bt))))
          else
            (case internal_scan node (ckey btc) 0 zero_cell of
               Dup \<Rightarrow> Some (CHIDB_EDUPLICATE, bt)
             | Stop i found search_cell \<Rightarrow>
                 (let child_num = (if \<not> found then right_page node else child_page search_cell)
                  in (case chidb_Btree_getNodeByPage bt child_num of
                        Inl err \<Rightarrow> Some (err, bt)
                      | Inr child_node \<Rightarrow>
                          if would_overflow child_node btc then
                            (case chidb_Btree_split bt n child_num (of_nat i) of
                               None \<Rightarrow> None
                             | Some (err, new_node, bt) \<Rightarrow>
                                 if err \<noteq> CHIDB_OK then Some (err, bt)
                                 else chidb_Btree_insertNonFull bt n btc)
                          else chidb_Btree_insertNonFull bt child_num btc))))"

declare chidb_Btree_insertNonFull.simps [code]

text \<open>
  \<^verbatim>\<open>chidb_Btree_insert\<close> (btree.c:761). The source reads \<^verbatim>\<open>root->right_page\<close> after
  it has released \<^verbatim>\<open>root\<close>; the model reads the value the node had.
  \<open>root_overflow\<close> is the body of the branch taken when the root cannot hold the
  cell, up to the call of \<^verbatim>\<open>chidb_Btree_split\<close>.
\<close>

definition root_reinit ::
  "BTree \<Rightarrow> npage_t \<Rightarrow> BTreeNode \<Rightarrow> npage_t \<Rightarrow> (status \<times> BTree) option" where
  "root_reinit bt nroot new_right new_right_num =
     (case chidb_Btree_initEmptyNode bt nroot
             (if ntype new_right = PGTYPE_TABLE_LEAF \<or> ntype new_right = PGTYPE_TABLE_INTERNAL
              then PGTYPE_TABLE_INTERNAL else PGTYPE_INDEX_INTERNAL) of
        (err, bt) \<Rightarrow>
          if err \<noteq> CHIDB_OK then Some (err, bt)
          else (case chidb_Btree_getNodeByPage bt nroot of
            Inl err \<Rightarrow> Some (err, bt)
          | Inr root' \<Rightarrow>
              (case chidb_Btree_writeNode bt (root'\<lparr>right_page := new_right_num\<rparr>) of
                 (err, bt) \<Rightarrow>
                   if err \<noteq> CHIDB_OK then Some (err, bt)
                   else (case chidb_Btree_writeNode bt new_right of
                     (err, bt) \<Rightarrow>
                       if err \<noteq> CHIDB_OK then Some (err, bt)
                       else (case chidb_Btree_split bt nroot new_right_num 0 of
                         None \<Rightarrow> None
                       | Some (err, other_child, bt) \<Rightarrow> Some (err, bt))))))"

definition root_overflow :: "BTree \<Rightarrow> npage_t \<Rightarrow> BTreeNode \<Rightarrow> (status \<times> BTree) option" where
  "root_overflow bt nroot root =
     (case chidb_Btree_newNode bt (ntype root) of
        (err, new_right_num, bt) \<Rightarrow>
          if err \<noteq> CHIDB_OK then Some (err, bt)
          else (case chidb_Btree_getNodeByPage bt new_right_num of
            Inl err \<Rightarrow> Some (err, bt)
          | Inr new_right \<Rightarrow>
              (case copy_cells root new_right 0 (unat (n_cells root)) 0 of
                 None \<Rightarrow> None
               | Some (Inl err) \<Rightarrow> Some (err, bt)
               | Some (Inr new_right) \<Rightarrow>
                   root_reinit bt nroot (new_right\<lparr>right_page := right_page root\<rparr>)
                     new_right_num)))"

definition chidb_Btree_insert :: "BTree \<Rightarrow> npage_t \<Rightarrow> BTreeCell \<Rightarrow> (status \<times> BTree) option" where
  "chidb_Btree_insert bt nroot btc =
     (case chidb_Btree_getNodeByPage bt nroot of
        Inl err \<Rightarrow> Some (err, bt)
      | Inr root \<Rightarrow>
          if would_overflow root btc then
            (case root_overflow bt nroot root of
               None \<Rightarrow> None
             | Some (err, bt) \<Rightarrow>
                 if err \<noteq> CHIDB_OK then Some (err, bt)
                 else chidb_Btree_insertNonFull bt nroot btc)
          else chidb_Btree_insertNonFull bt nroot btc)"

definition chidb_Btree_insertInTable ::
  "BTree \<Rightarrow> npage_t \<Rightarrow> chidb_key_t \<Rightarrow> byte list \<Rightarrow> uint16_t \<Rightarrow> (status \<times> BTree) option" where
  "chidb_Btree_insertInTable bt nroot key d sz =
     chidb_Btree_insert bt nroot (table_cell key d sz)"

subsection \<open>The cursor\<close>

text \<open>
  \<^verbatim>\<open>dbm-cursor.c\<close>. The trail is the list \<open>root_trail\<close>, its last element the node
  the cursor stands on. \<^verbatim>\<open>chidb_dbm_trail_node_new\<close> (dbm-cursor.c:47) fails when the
  page cannot be read and leaves a trail node whose \<^verbatim>\<open>node\<close> pointer was never set;
  \<^verbatim>\<open>chidb_dbm_cursor_rewind\<close> and \<^verbatim>\<open>chidb_dbm_cursor_table_down\<close> ignore the status
  and go on to dereference that pointer. On an empty trail
  \<^verbatim>\<open>chidb_dbm_cursor_table_down\<close> and \<^verbatim>\<open>chidb_dbm_cursor_table_move\<close> dereference the
  null pointer that \<^verbatim>\<open>list_get_at\<close> returns. Both are undefined in C: the model has
  no result there (\<open>None\<close>), as it has none for a descent that never ends.
\<close>

datatype chidb_dbm_cursor_type_t = CURSOR_UNSPECIFIED | CURSOR_READ | CURSOR_WRITE

record chidb_dbm_trail_node_t =
  node :: BTreeNode
  cell_num :: ncell_t

record chidb_dbm_cursor_t =
  cursor_type :: chidb_dbm_cursor_type_t
  root_page :: npage_t
  root_trail :: "chidb_dbm_trail_node_t list"
  cell :: BTreeCell

definition chidb_dbm_trail_node_new :: "BTree \<Rightarrow> npage_t \<Rightarrow> status + chidb_dbm_trail_node_t" where
  "chidb_dbm_trail_node_new tree pg =
     (case chidb_Btree_getNodeByPage tree pg of
        Inl err \<Rightarrow> Inl err
      | Inr nd \<Rightarrow> Inr \<lparr>node = nd, cell_num = 0\<rparr>)"

text \<open>
  \<^verbatim>\<open>chidb_dbm_cursor_table_down\<close> (dbm-cursor.c:96). At a leaf the status of
  \<^verbatim>\<open>chidb_Btree_getCell\<close> is ignored: when it fails, \<open>cell\<close> stays as it was.
\<close>

partial_function (option) chidb_dbm_cursor_table_down ::
  "BTree \<Rightarrow> chidb_dbm_cursor_t \<Rightarrow> bool \<Rightarrow> (status \<times> chidb_dbm_cursor_t) option"
where
  "chidb_dbm_cursor_table_down tree cursor forward =
     (if root_trail cursor = [] then None
      else
        (let trail_node = last (root_trail cursor)
         in if ntype (node trail_node) = PGTYPE_TABLE_LEAF then
              (case chidb_Btree_getCell (node trail_node) (cell_num trail_node) of
                 Inl err \<Rightarrow> Some (CHIDB_OK, cursor)
               | Inr c \<Rightarrow> Some (CHIDB_OK, cursor\<lparr>cell := c\<rparr>))
            else
              (let next_page =
                     (if cell_num trail_node < n_cells (node trail_node)
                      then child_page
                             (cell_of (chidb_Btree_getCell (node trail_node) (cell_num trail_node)))
                      else right_page (node trail_node))
               in (case chidb_dbm_trail_node_new tree next_page of
                     Inl err \<Rightarrow> None
                   | Inr next_trail_node \<Rightarrow>
                       chidb_dbm_cursor_table_down tree
                         (cursor\<lparr>root_trail := root_trail cursor @
                            [if \<not> forward
                             then next_trail_node\<lparr>cell_num := n_cells (node next_trail_node)\<rparr>
                             else next_trail_node]\<rparr>)
                         forward))))"

declare chidb_dbm_cursor_table_down.simps [code]

text \<open>
  \<^verbatim>\<open>chidb_dbm_cursor_rewind\<close> (dbm-cursor.c:80): whatever
  \<^verbatim>\<open>chidb_dbm_cursor_table_down\<close> returns, the function returns \<^verbatim>\<open>CHIDB_OK\<close>.
\<close>

definition chidb_dbm_cursor_rewind ::
  "BTree \<Rightarrow> chidb_dbm_cursor_t \<Rightarrow> (status \<times> chidb_dbm_cursor_t) option" where
  "chidb_dbm_cursor_rewind tree cursor =
     (case chidb_dbm_trail_node_new tree (root_page cursor) of
        Inl err \<Rightarrow> None
      | Inr trail_node \<Rightarrow>
          (case chidb_dbm_cursor_table_down tree (cursor\<lparr>root_trail := [trail_node]\<rparr>) True of
             None \<Rightarrow> None
           | Some (err, cursor') \<Rightarrow> Some (CHIDB_OK, cursor')))"

text \<open>
  \<^verbatim>\<open>chidb_dbm_cursor_table_up\<close> (dbm-cursor.c:166). \<^verbatim>\<open>cell_num\<close> is unsigned, so the
  test \<^verbatim>\<open>cell_num >= 0\<close> of the backward direction always holds.
\<close>

partial_function (option) chidb_dbm_cursor_table_up ::
  "BTree \<Rightarrow> chidb_dbm_cursor_t \<Rightarrow> bool \<Rightarrow> (status \<times> chidb_dbm_cursor_t) option"
where
  "chidb_dbm_cursor_table_up tree cursor forward =
     (if root_trail cursor = [] then Some (CHIDB_CANTMOVE, cursor)
      else
        let trail_node = last (root_trail cursor);
            trail_node = (if forward then trail_node\<lparr>cell_num := cell_num trail_node + 1\<rparr>
                          else trail_node\<lparr>cell_num := cell_num trail_node - 1\<rparr>);
            cursor = cursor\<lparr>root_trail := butlast (root_trail cursor) @ [trail_node]\<rparr>;
            down = (if forward then cell_num trail_node \<le> n_cells (node trail_node)
                    else cell_num trail_node \<ge> 0)
        in if down then chidb_dbm_cursor_table_down tree cursor forward
           else chidb_dbm_cursor_table_up tree
                  (cursor\<lparr>root_trail := butlast (root_trail cursor)\<rparr>) forward)"

declare chidb_dbm_cursor_table_up.simps [code]

text \<open>
  \<^verbatim>\<open>chidb_dbm_cursor_table_move\<close> (dbm-cursor.c:129). The comparison with
  \<^verbatim>\<open>n_cells - 1\<close> is one of \<^verbatim>\<open>int\<close>s.
\<close>

definition chidb_dbm_cursor_table_move ::
  "BTree \<Rightarrow> chidb_dbm_cursor_t \<Rightarrow> bool \<Rightarrow> (status \<times> chidb_dbm_cursor_t) option" where
  "chidb_dbm_cursor_table_move tree cursor forward =
     (if root_trail cursor = [] then None
      else
        let trail_node = last (root_trail cursor);
            up = (if forward
                  then int (unat (cell_num trail_node)) = int (unat (n_cells (node trail_node))) - 1
                  else cell_num trail_node = 0)
        in if up then
             chidb_dbm_cursor_table_up tree
               (cursor\<lparr>root_trail := butlast (root_trail cursor)\<rparr>) forward
           else
             (let trail_node = (if forward then trail_node\<lparr>cell_num := cell_num trail_node + 1\<rparr>
                                else trail_node\<lparr>cell_num := cell_num trail_node - 1\<rparr>);
                  cursor = cursor\<lparr>root_trail := butlast (root_trail cursor) @ [trail_node]\<rparr>
              in (case chidb_Btree_getCell (node trail_node) (cell_num trail_node) of
                    Inl err \<Rightarrow> Some (err, cursor)
                  | Inr c \<Rightarrow> Some (CHIDB_OK, cursor\<lparr>cell := c\<rparr>))))"

section \<open>Bytes: reading after writing\<close>

lemma length_write_bytes [simp]: "length (write_bytes p off bs) = length p"
  by (induction bs arbitrary: p off) auto

lemma length_put_bytes [simp]: "length (put_bytes p off bs) = length p"
  by (simp add: put_bytes_def)

lemma length_read_bytes [simp]: "length (read_bytes p off n) = n"
  by (simp add: read_bytes_def)

lemma byte_at_nth: "i < length p \<Longrightarrow> byte_at p i = p ! i"
  by (simp add: byte_at_def)

lemma byte_at_beyond: "length p \<le> i \<Longrightarrow> byte_at p i = 0"
  by (simp add: byte_at_def)

lemma byte_at_Nil: "byte_at [] i = 0"
  by (simp add: byte_at_def)

lemma byte_at_Cons: "byte_at (x # xs) i = (if i = 0 then x else byte_at xs (i - 1))"
  by (auto simp: byte_at_def nth_Cons')

lemma byte_at_append:
  "byte_at (xs @ ys) i = (if i < length xs then byte_at xs i else byte_at ys (i - length xs))"
  by (auto simp: byte_at_def nth_append)

lemma byte_at_replicate: "byte_at (replicate n x) i = (if i < n then x else 0)"
  by (simp add: byte_at_def)

lemma byte_at_take: "byte_at (take n xs) i = (if i < n then byte_at xs i else 0)"
  by (simp add: byte_at_def)

lemma byte_at_drop: "byte_at (drop n xs) i = byte_at xs (n + i)"
  by (auto simp: byte_at_def)

lemma byte_at_read_bytes:
  "byte_at (read_bytes p off n) i = (if i < n then byte_at p (off + i) else 0)"
  by (simp add: byte_at_def read_bytes_def)

lemma byte_at_write_bytes:
  "byte_at (write_bytes p off bs) i =
     (if off \<le> i \<and> i < off + length bs \<and> i < length p then byte_at bs (i - off)
      else byte_at p i)"
proof (induction bs arbitrary: p off)
  case Nil
  then show ?case by auto
next
  case (Cons b bs)
  have "byte_at (write_bytes p off (b # bs)) i =
        (if Suc off \<le> i \<and> i < Suc off + length bs \<and> i < length p
         then byte_at bs (i - Suc off) else byte_at (p[off := b]) i)"
    by (simp add: Cons.IH)
  also have "\<dots> = (if off \<le> i \<and> i < off + length (b # bs) \<and> i < length p
                    then byte_at (b # bs) (i - off) else byte_at p i)"
    by (auto simp: byte_at_def nth_list_update nth_Cons' Suc_diff_le)
  finally show ?case .
qed

lemma put_bytes_nat: "0 \<le> off \<Longrightarrow> put_bytes p off bs = write_bytes p (nat off) bs"
  by (simp add: put_bytes_def)

lemma put_bytes_int [simp]: "put_bytes p (int n) bs = write_bytes p n bs"
  by (simp add: put_bytes_def)

lemma list_eq_byte_at:
  "length xs = length ys \<Longrightarrow> (\<And>i. i < length xs \<Longrightarrow> byte_at xs i = byte_at ys i) \<Longrightarrow> xs = ys"
  by (rule nth_equalityI) (simp_all add: byte_at_def)

lemmas byte_at_simps =
  byte_at_Nil byte_at_Cons byte_at_append byte_at_replicate byte_at_take byte_at_drop
  byte_at_read_bytes byte_at_write_bytes

declare write_bytes.simps [simp del]

subsection \<open>Big-endian integers and varints\<close>

lemma word16_of_bytes:
  "push_bit 8 (ucast (ucast (drop_bit 8 (v::16 word)) :: 8 word)) OR ucast (ucast v :: 8 word) = v"
  (is "?l = ?r")
proof (rule bit_eqI)
  fix n assume "possible_bit TYPE(16 word) n"
  then have n: "n < 16" by (simp add: possible_bit_def)
  show "bit ?l n = bit ?r n"
  proof (cases "n < 8")
    case True
    then show ?thesis by (simp add: bit_simps)
  next
    case False
    define m where "m = n - 8"
    have nm: "n = 8 + m" and m: "m < 8" using False n by (simp_all add: m_def)
    show ?thesis unfolding nm using m by (simp add: bit_simps)
  qed
qed

lemma word32_of_bytes:
  "push_bit 24 (ucast (ucast (drop_bit 24 (v::32 word)) :: 8 word))
   OR push_bit 16 (ucast (ucast (drop_bit 16 v) :: 8 word))
   OR push_bit 8 (ucast (ucast (drop_bit 8 v) :: 8 word)) OR ucast (ucast v :: 8 word) = v"
  (is "?l = ?r")
proof (rule bit_eqI)
  fix n assume "possible_bit TYPE(32 word) n"
  then have n: "n < 32" by (simp add: possible_bit_def)
  consider "n < 8" | "8 \<le> n" "n < 16" | "16 \<le> n" "n < 24" | "24 \<le> n" "n < 32"
    using n by linarith
  then show "bit ?l n = bit ?r n"
  proof cases
    case 1
    then show ?thesis by (simp add: bit_simps)
  next
    case 2
    define m where "m = n - 8"
    have nm: "n = 8 + m" and m: "m < 8" using 2 by (simp_all add: m_def)
    show ?thesis unfolding nm using m by (simp add: bit_simps)
  next
    case 3
    define m where "m = n - 16"
    have nm: "n = 16 + m" and m: "m < 8" using 3 by (simp_all add: m_def)
    show ?thesis unfolding nm using m by (simp add: bit_simps)
  next
    case 4
    define m where "m = n - 24"
    have nm: "n = 24 + m" and m: "m < 8" using 4 by (simp_all add: m_def)
    show ?thesis unfolding nm using m by (simp add: bit_simps)
  qed
qed

lemma bit_7F: "bit (0x7F :: int) k \<longleftrightarrow> k < 7"
proof -
  have "(0x7F :: int) = mask 7" by (simp add: mask_eq_exp_minus_1)
  then show ?thesis by (simp only: bit_mask_iff) (auto simp: possible_bit_def)
qed

lemma bit_28: "bit (0x0FFFFFFF :: int) k \<longleftrightarrow> k < 28"
proof -
  have "(0x0FFFFFFF :: int) = mask 28" by (simp add: mask_eq_exp_minus_1)
  then show ?thesis by (simp only: bit_mask_iff) (auto simp: possible_bit_def)
qed

lemma bit_80: "bit (0x80 :: int) k \<longleftrightarrow> k = 7"
proof -
  have "(0x80 :: int) = push_bit 7 1" by simp
  then show ?thesis by (simp only: bit_push_bit_iff bit_1_iff) (auto simp: possible_bit_def)
qed

lemma varint32_of_bytes:
  "push_bit 21 (ucast ((ucast (drop_bit 21 (v::32 word) AND 0x7F) OR 0x80 :: 8 word) AND 0x7F))
   OR push_bit 14 (ucast ((ucast (drop_bit 14 v AND 0x7F) OR 0x80 :: 8 word) AND 0x7F))
   OR push_bit 7 (ucast ((ucast (drop_bit 7 v AND 0x7F) OR 0x80 :: 8 word) AND 0x7F))
   OR ucast ((ucast (v AND 0x7F) :: 8 word) AND 0x7F) = v AND 0x0FFFFFFF"
  (is "?l = ?r")
proof (rule bit_eqI)
  fix n assume "possible_bit TYPE(32 word) n"
  then have n: "n < 32" by (simp add: possible_bit_def)
  consider "n < 7" | "7 \<le> n" "n < 14" | "14 \<le> n" "n < 21" | "21 \<le> n" "n < 28"
    | "28 \<le> n" "n < 32"
    using n by linarith
  then show "bit ?l n = bit ?r n"
  proof cases
    case 1
    then show ?thesis by (simp add: bit_simps bit_7F bit_28 bit_80)
  next
    case 2
    define m where "m = n - 7"
    have nm: "n = 7 + m" and m: "m < 7" using 2 by (simp_all add: m_def)
    show ?thesis unfolding nm using m by (simp add: bit_simps bit_7F bit_28 bit_80)
  next
    case 3
    define m where "m = n - 14"
    have nm: "n = 14 + m" and m: "m < 7" using 3 by (simp_all add: m_def)
    show ?thesis unfolding nm using m by (simp add: bit_simps bit_7F bit_28 bit_80)
  next
    case 4
    define m where "m = n - 21"
    have nm: "n = 21 + m" and m: "m < 7" using 4 by (simp_all add: m_def)
    show ?thesis unfolding nm using m by (simp add: bit_simps bit_7F bit_28 bit_80)
  next
    case 5
    define m where "m = n - 28"
    have nm: "n = 28 + m" and m: "m < 4" using 5 by (simp_all add: m_def)
    show ?thesis unfolding nm using m by (simp add: bit_simps bit_7F bit_28 bit_80)
  qed
qed

lemma getVarint32_28bit: "getVarint32 p off AND 0x0FFFFFFF = getVarint32 p off"
  (is "?l = ?r")
proof (rule bit_eqI)
  fix n assume "possible_bit TYPE(32 word) n"
  then have n: "n < 32" by (simp add: possible_bit_def)
  consider "n < 28" | "28 \<le> n" "n < 32" using n by linarith
  then show "bit ?l n = bit ?r n"
  proof cases
    case 1
    then show ?thesis by (simp add: bit_simps bit_28)
  next
    case 2
    define m where "m = n - 28"
    have nm: "n = 28 + m" and m: "m < 4" using 2 by (simp_all add: m_def)
    show ?thesis unfolding nm getVarint32_def using m by (simp add: bit_simps bit_7F bit_28)
  qed
qed

lemma get2byte_write2:
  "off + 1 < length p \<Longrightarrow>
   get2byte (write_bytes p off [ucast (drop_bit 8 v), ucast v]) off = v"
  by (simp add: get2byte_def byte_at_simps word16_of_bytes)

lemma get2byte_put2byte: "off + 1 < length p \<Longrightarrow> get2byte (put2byte p (int off) v) off = v"
  by (simp add: put2byte_def get2byte_write2)

lemma get4byte_put4byte: "off + 3 < length p \<Longrightarrow> get4byte (put4byte p (int off) v) off = v"
  by (simp add: put4byte_def get4byte_def byte_at_simps word32_of_bytes)

lemma get2byte_bytes2: "off + 1 < length p \<Longrightarrow> get2byte (write_bytes p off (bytes2 v)) off = v"
  by (simp add: bytes2_def get2byte_write2)

lemma get4byte_bytes4: "off + 3 < length p \<Longrightarrow> get4byte (write_bytes p off (bytes4 v)) off = v"
  by (simp add: bytes4_def get4byte_def byte_at_simps word32_of_bytes)

lemma getVarint32_varint4:
  "off + 3 < length p \<Longrightarrow> getVarint32 (write_bytes p off (varint4 v)) off = v AND 0x0FFFFFFF"
  by (simp add: varint4_def getVarint32_def byte_at_simps varint32_of_bytes)


lemma put_bytes_numeral [simp]:
  "put_bytes p (numeral k) bs = write_bytes p (numeral k) bs"
  "put_bytes p 0 bs = write_bytes p 0 bs"
  "put_bytes p 1 bs = write_bytes p 1 bs"
  by (simp_all add: put_bytes_def)

lemma take_pad: "length xs = n \<Longrightarrow> take n (xs @ replicate n (0::byte)) = xs"
  by simp

lemma read_bytes_take_drop:
  "off + n \<le> length p \<Longrightarrow> read_bytes p off n = take n (drop off p)"
  by (rule list_eq_byte_at) (auto simp: byte_at_simps)

lemma read_bytes_4:
  "read_bytes p off 4 =
     [byte_at p off, byte_at p (off + 1), byte_at p (off + 2), byte_at p (off + 3)]"
  by (simp add: read_bytes_def upt_rec numeral_eq_Suc)

lemma bytes_of_word32:
  fixes a b c d :: byte
  defines "v \<equiv> (push_bit 24 (ucast a) OR push_bit 16 (ucast b) OR push_bit 8 (ucast c)
                  OR ucast d :: 32 word)"
  shows "ucast (drop_bit 24 v) = a" "ucast (drop_bit 16 v) = b" "ucast (drop_bit 8 v) = c"
    "ucast v = d"
proof -
  show "ucast (drop_bit 24 v) = a"
    by (rule bit_eqI) (auto simp: v_def bit_simps dest: bit_imp_le_length)
  show "ucast (drop_bit 16 v) = b"
    by (rule bit_eqI) (auto simp: v_def bit_simps dest: bit_imp_le_length)
  show "ucast (drop_bit 8 v) = c"
    by (rule bit_eqI) (auto simp: v_def bit_simps dest: bit_imp_le_length)
  show "ucast v = d"
    by (rule bit_eqI) (auto simp: v_def bit_simps dest: bit_imp_le_length)
qed

lemma read4_eq_iff:
  "read_bytes p off 4 = [ucast (drop_bit 24 v), ucast (drop_bit 16 v), ucast (drop_bit 8 v), ucast v]
   \<longleftrightarrow> get4byte p off = v"
proof
  assume "read_bytes p off 4 =
          [ucast (drop_bit 24 v), ucast (drop_bit 16 v), ucast (drop_bit 8 v), ucast v]"
  then show "get4byte p off = v"
    by (simp add: read_bytes_4 get4byte_def word32_of_bytes)
next
  assume "get4byte p off = v"
  then have v: "v = get4byte p off" by simp
  show "read_bytes p off 4 =
        [ucast (drop_bit 24 v), ucast (drop_bit 16 v), ucast (drop_bit 8 v), ucast v]"
    unfolding v read_bytes_4 get4byte_def by (simp only: bytes_of_word32)
qed

lemma read4_zero: "read_bytes p off 4 = fourZeroes \<longleftrightarrow> get4byte p off = 0"
  using read4_eq_iff [of p off 0] by (simp add: fourZeroes_def)

lemma read4_one: "read_bytes p off 4 = zeroAndOne \<longleftrightarrow> get4byte p off = 1"
  using read4_eq_iff [of p off 1] by (simp add: zeroAndOne_def)

lemma byte_20000: "(20000 :: 8 word) = 32"
  by simp

lemma read4_cache: "read_bytes p off 4 = pageCacheSize \<longleftrightarrow> get4byte p off = 20000"
  using read4_eq_iff [of p off 20000] by (simp add: pageCacheSize_def byte_20000)

section \<open>Opening an existing file (C6)\<close>

text \<open>
  The constant slots of the file header, as the spec lists them: the magic string in
  bytes 0 up to 15 (its 15 characters), the six constant bytes at offset 18, the page
  cache size 20000, and the 32-bit slots documented as 0 (at 0x20, 0x24, 0x34 and
  0x40) and as 1 (at 0x2C and 0x38). The file change counter (at 0x18), the schema
  version (at 0x28) and the user cookie (at 0x3C) are fields of the header that the
  spec does not count among the constants.
\<close>

definition constant_slots :: "byte list \<Rightarrow> bool" where
  "constant_slots header \<longleftrightarrow>
     take 15 header = magic_string \<and>
     take 6 (drop 18 header) = [0x01, 0x01, 0x00, 0x40, 0x20, 0x20] \<and>
     get4byte header 48 = 20000 \<and>
     list_all (\<lambda>off. get4byte header off = 0) [32, 36, 52, 64] \<and>
     list_all (\<lambda>off. get4byte header off = 1) [44, 56]"

lemma header_check_iff:
  "length header = 100 \<Longrightarrow>
   header_check header \<longleftrightarrow>
     constant_slots header \<and> get4byte header HEADER_FILECHANGE = 0
     \<and> get4byte header HEADER_SCHEMA = 0 \<and> get4byte header HEADER_COOKIE = 0"
  unfolding header_check_def constant_slots_def format_defs read4_zero read4_one read4_cache
  by (auto simp: read_bytes_take_drop)

lemma file_size_int_zero: "file_size_int sz = 0 \<longleftrightarrow> sz mod 4294967296 = 0"
proof -
  have "file_size_int sz = 0 \<longleftrightarrow> (word_of_nat sz :: 32 word) = 0"
    unfolding file_size_int_def by (rule signed_eq_0_iff)
  also have "\<dots> \<longleftrightarrow> sz mod 2 ^ 32 = 0"
    by (simp add: word_of_nat_eq_0_iff mod_eq_0_iff_dvd)
  finally show ?thesis by simp
qed

text \<open>
  C6. On a file that exists and whose size is not a multiple of \<open>2\<^sup>3\<^sup>2\<close> bytes,
  \<open>chidb_Btree_open\<close> returns \<open>CHIDB_OK\<close>, with the pager's page size set to the 16-bit
  value at offset 16, when the file has the 100 bytes of a header, every constant
  slot matches and the file change counter, the schema version and the user cookie
  are 0; in every other case it returns \<open>CHIDB_ECORRUPTHEADER\<close> and leaves the pager
  as it was.
\<close>

theorem open_existing_checks_header:
  assumes "fsize = Some sz" and "sz mod 4294967296 \<noteq> 0"
  shows "chidb_Btree_open fsize pager =
     (if 100 \<le> length (pages pager 1) \<and> constant_slots (take 100 (pages pager 1))
         \<and> get4byte (pages pager 1) HEADER_FILECHANGE = 0
         \<and> get4byte (pages pager 1) HEADER_SCHEMA = 0
         \<and> get4byte (pages pager 1) HEADER_COOKIE = 0
      then (CHIDB_OK, pager\<lparr>page_size := get2byte (pages pager 1) 16\<rparr>)
      else (CHIDB_ECORRUPTHEADER, pager))"
  using assms
  by (auto simp: chidb_Btree_open_def chidb_Pager_readHeader_def header_check_iff
       file_size_int_zero chidb_Pager_setPageSize_def get2byte_def get4byte_def
       byte_at_simps format_defs)

definition canonical_header :: "byte list" where
  "canonical_header =
     magic_string @ [0, 0x04, 0x00, 0x01, 0x01, 0x00, 0x40, 0x20, 0x20] @ replicate 20 0
     @ [0, 0, 0, 1, 0, 0, 0x4E, 0x20, 0, 0, 0, 0, 0, 0, 0, 1] @ replicate 40 0"

definition fresh_file :: Pager where
  "fresh_file =
     \<lparr>page_size = 0, n_pages = 1,
      pages = (\<lambda>_. [])(1 := canonical_header @ [0x0D, 0, 108, 0, 0, 0x04, 0, 0] @ replicate 916 0)\<rparr>"

lemma length_magic_string: "length magic_string = 15"
  by (simp add: magic_string_def)

theorem open_existing_checks_header_witness:
  "Some 1024 = Some (1024::nat) \<and> (1024::nat) mod 4294967296 \<noteq> 0 \<and>
   chidb_Btree_open (Some 1024) fresh_file = (CHIDB_OK, fresh_file\<lparr>page_size := 1024\<rparr>)"
  using open_existing_checks_header [of "Some 1024" 1024 fresh_file]
  by (simp add: fresh_file_def canonical_header_def constant_slots_def length_magic_string
        get4byte_def get2byte_def byte_at_simps format_defs)

text \<open>
  A file of 1024 bytes whose header has every constant slot of the spec in place and
  the file change counter 1: \<open>chidb_Btree_open\<close> returns \<open>CHIDB_ECORRUPTHEADER\<close>.
\<close>

definition counted_header :: "byte list" where
  "counted_header =
     magic_string @ [0, 0x04, 0x00, 0x01, 0x01, 0x00, 0x40, 0x20, 0x20] @ [0, 0, 0, 1]
     @ replicate 16 0
     @ [0, 0, 0, 1, 0, 0, 0x4E, 0x20, 0, 0, 0, 0, 0, 0, 0, 1] @ replicate 40 0"

definition counted_file :: Pager where
  "counted_file =
     \<lparr>page_size = 0, n_pages = 1,
      pages = (\<lambda>_. [])(1 := counted_header @ [0x0D, 0, 108, 0, 0, 0x04, 0, 0] @ replicate 916 0)\<rparr>"

theorem open_rejects_file_change_counter:
  "constant_slots (take 100 (pages counted_file 1)) \<and>
   get4byte (pages counted_file 1) HEADER_FILECHANGE = 1 \<and>
   chidb_Btree_open (Some 1024) counted_file = (CHIDB_ECORRUPTHEADER, counted_file)"
  by (simp add: chidb_Btree_open_def chidb_Pager_readHeader_def header_check_iff
        file_size_int_def counted_file_def counted_header_def constant_slots_def
        length_magic_string get4byte_def get2byte_def byte_at_simps format_defs)

section \<open>Reading a cell (C8)\<close>

lemma getCell_cellno_iff:
  "chidb_Btree_getCell btn ncell = Inl err \<longleftrightarrow> err = CHIDB_ECELLNO \<and> n_cells btn < ncell"
  by (auto simp: chidb_Btree_getCell_def Let_def)

text \<open>
  C8. The claim fails at \<open>ncell = n_cells\<close>: the guard of \<open>chidb_Btree_getCell\<close>
  is \<open>n_cells < ncell\<close>, so for every node the cell number \<open>n_cells\<close> is accepted and
  a cell is decoded from whatever the offset array holds one entry past its end.
\<close>

theorem getCell_accepts_n_cells:
  "\<exists>c. chidb_Btree_getCell btn (n_cells btn) = Inr c"
  by (simp add: chidb_Btree_getCell_def Let_def)

section \<open>Initialising a node (C9)\<close>

text \<open>
  A page that held a table leaf with two cells: bytes 8 to 11 are the first two entries
  of its cell offset array.
\<close>

definition stale_leaf_page :: "byte list" where
  "stale_leaf_page =
     [0x0D, 0x00, 0x0C, 0x00, 0x02, 0x03, 0xE8, 0x00, 0x03, 0xF4, 0x03, 0xE8]
     @ replicate 988 0
     @ [0x80, 0x80, 0x80, 0x04, 0x80, 0x80, 0x80, 0x02, 1, 2, 3, 4]
     @ [0x80, 0x80, 0x80, 0x04, 0x80, 0x80, 0x80, 0x01, 5, 6, 7, 8]"

definition stale_bt :: BTree where
  "stale_bt = \<lparr>page_size = 1024, n_pages = 2, pages = (\<lambda>_. [])(2 := stale_leaf_page)\<rparr>"

text \<open>
  C9. \<open>chidb_Btree_initEmptyNode\<close> compares the node type with the two offsets of the
  cell offset array (12 and 8) where it means the two internal type codes, so it never
  writes the right-page field. On the page above, initialised as a table internal
  node, the header has type 5, no cell, cell area at 1024 and first free byte 12, but
  the right page is 0x03F403E8, the bytes the page held before.
\<close>

theorem initEmptyNode_keeps_stale_right_page:
  "(case chidb_Btree_initEmptyNode stale_bt 2 PGTYPE_TABLE_INTERNAL of
      (st, bt') \<Rightarrow>
        (st, map_sum id (\<lambda>n. (ntype n, n_cells n, cells_offset n, free_offset n, right_page n))
               (chidb_Btree_getNodeByPage bt' 2)))
   = (CHIDB_OK, Inr (0x05, 0, 1024, 12, 0x03F403E8))"
  by (simp add: chidb_Btree_initEmptyNode_def chidb_Btree_getNodeByPage_def
        chidb_Pager_readPage_def chidb_Pager_writePage_def chidb_Pager_releaseMemPage_def
        stale_bt_def stale_leaf_page_def Let_def format_defs put2byte_def put4byte_def
        get2byte_def get4byte_def byte_at_simps)

section \<open>Inserting a cell (C10)\<close>

text \<open>
  The contract of \<^verbatim>\<open>chidb_Btree_insertCell\<close>, which its caller has to meet, and what
  the function does under it. \<open>disk_length\<close> is the number of bytes a cell takes in
  the page and \<open>cell_bytes\<close> are those bytes; \<open>offset_array\<close> is the cell offset array
  of a node. \<open>insertCell_contract\<close>: the cell number is at most \<open>n_cells\<close>, the first
  free byte is the end of the offset array, the free gap holds the cell and one more
  array entry, the cell area lies in the page, and a table leaf cell comes with its
  payload bytes. \<open>insertCell_post\<close>: the cell is serialised at the new \<open>cells_offset\<close>,
  which is the old one minus the cell's length; the offset array is the old one with
  the new offset put in at \<open>ncell\<close>; \<open>n_cells\<close> has grown by 1 and \<open>free_offset\<close> by 2;
  the node header on the page and the cells that were there are as before.
\<close>

definition disk_length :: "BTreeCell \<Rightarrow> nat" where
  "disk_length c =
     (if ctype c = PGTYPE_TABLE_INTERNAL then TABLEINTCELL_SIZE
      else if ctype c = PGTYPE_TABLE_LEAF then TABLELEAFCELL_SIZE_WITHOUTDATA + unat (data_size c)
      else if ctype c = PGTYPE_INDEX_INTERNAL then INDEXINTCELL_SIZE
      else INDEXLEAFCELL_SIZE)"

definition cell_bytes :: "BTreeCell \<Rightarrow> byte list" where
  "cell_bytes c =
     (if ctype c = PGTYPE_TABLE_INTERNAL then bytes4 (child_page c) @ varint4 (ckey c)
      else if ctype c = PGTYPE_TABLE_LEAF then
        varint4 (data_size c) @ varint4 (ckey c) @ take (unat (data_size c)) (cdata c)
      else if ctype c = PGTYPE_INDEX_INTERNAL then
        bytes4 (child_page c) @ index_magic @ bytes4 (ckey c) @ bytes4 (keyPk c)
      else index_magic @ bytes4 (ckey c) @ bytes4 (keyPk c))"

definition offset_array :: "BTreeNode \<Rightarrow> uint16_t list" where
  "offset_array nd =
     map (\<lambda>j. get2byte (data (page nd)) (celloffset_array nd + 2 * j)) [0..<unat (n_cells nd)]"

definition insertCell_contract :: "BTreeNode \<Rightarrow> ncell_t \<Rightarrow> BTreeCell \<Rightarrow> bool" where
  "insertCell_contract btn ncell c \<longleftrightarrow>
     ncell \<le> n_cells btn
     \<and> unat (free_offset btn) = celloffset_array btn + 2 * unat (n_cells btn)
     \<and> unat (free_offset btn) + 2 + disk_length c \<le> unat (cells_offset btn)
     \<and> unat (cells_offset btn) \<le> length (data (page btn))
     \<and> (if ctype c = PGTYPE_TABLE_LEAF then unat (data_size c) \<le> length (cdata c) else True)"

definition insertCell_post :: "BTreeNode \<Rightarrow> ncell_t \<Rightarrow> BTreeCell \<Rightarrow> BTreeNode \<Rightarrow> bool" where
  "insertCell_post btn ncell c btn' \<longleftrightarrow>
     n_cells btn' = n_cells btn + 1
     \<and> free_offset btn' = free_offset btn + 2
     \<and> unat (cells_offset btn') + disk_length c = unat (cells_offset btn)
     \<and> ntype btn' = ntype btn \<and> right_page btn' = right_page btn
     \<and> celloffset_array btn' = celloffset_array btn
     \<and> npage (page btn') = npage (page btn)
     \<and> length (data (page btn')) = length (data (page btn))
     \<and> read_bytes (data (page btn')) (unat (cells_offset btn')) (disk_length c) = cell_bytes c
     \<and> offset_array btn' =
         take (unat ncell) (offset_array btn) @ cells_offset btn' # drop (unat ncell) (offset_array btn)
     \<and> drop (unat (cells_offset btn)) (data (page btn'))
         = drop (unat (cells_offset btn)) (data (page btn))
     \<and> take (celloffset_array btn) (data (page btn')) = take (celloffset_array btn) (data (page btn))"

lemma write_bytes_append:
  "write_bytes p off (xs @ ys) = write_bytes (write_bytes p off xs) (off + length xs) ys"
  by (induction xs arbitrary: p off) (simp_all add: write_bytes.simps)

lemma length_encodings [simp]:
  "length (bytes2 v) = 2" "length (bytes4 w) = 4" "length (varint4 w) = 4" "length index_magic = 4"
  by (simp_all add: bytes2_def bytes4_def varint4_def index_magic_def)

lemma length_cell_bytes:
  "(ctype c = PGTYPE_TABLE_LEAF \<Longrightarrow> unat (data_size c) \<le> length (cdata c)) \<Longrightarrow>
   length (cell_bytes c) = disk_length c"
  by (auto simp: cell_bytes_def disk_length_def format_defs)

lemma store_bytes_Some:
  "0 \<le> off \<Longrightarrow> nat off + length bs \<le> length p \<Longrightarrow>
   store_bytes p off bs = Some (write_bytes p (nat off) bs)"
  by (simp add: store_bytes_def)

lemma serialize_cell_Some:
  assumes len: "nat_at + disk_length c \<le> length d"
    and src: "ctype c = PGTYPE_TABLE_LEAF \<Longrightarrow> unat (data_size c) \<le> length (cdata c)"
  shows "serialize_cell d (int nat_at) c = Some (write_bytes d nat_at (cell_bytes c))"
proof -
  consider (ti) "ctype c = PGTYPE_TABLE_INTERNAL"
    | (tl) "ctype c = PGTYPE_TABLE_LEAF"
    | (ii) "ctype c = PGTYPE_INDEX_INTERNAL"
    | (il) "ctype c \<noteq> PGTYPE_TABLE_INTERNAL" "ctype c \<noteq> PGTYPE_TABLE_LEAF"
           "ctype c \<noteq> PGTYPE_INDEX_INTERNAL"
    by blast
  then show ?thesis
  proof cases
    case ti
    then have "nat_at + 8 \<le> length d" using len by (simp add: disk_length_def format_defs)
    then show ?thesis
      using ti
      by (simp add: serialize_cell_def cell_bytes_def store_bytes_def write_bytes_append
            format_defs nat_add_distrib)
  next
    case tl
    then have "nat_at + 8 + unat (data_size c) \<le> length d"
      using len by (simp add: disk_length_def format_defs)
    then show ?thesis
      using tl src
      by (simp add: serialize_cell_def cell_bytes_def store_bytes_def memcpy_from_def
            write_bytes_append format_defs nat_add_distrib add.assoc)
  next
    case ii
    then have "nat_at + 16 \<le> length d" using len by (simp add: disk_length_def format_defs)
    then show ?thesis
      using ii
      by (simp add: serialize_cell_def cell_bytes_def store_bytes_def write_bytes_append
            format_defs nat_add_distrib add.assoc)
  next
    case il
    then have "nat_at + 12 \<le> length d" using len by (simp add: disk_length_def format_defs)
    then show ?thesis
      using il
      by (simp add: serialize_cell_def cell_bytes_def store_bytes_def write_bytes_append
            format_defs nat_add_distrib add.assoc)
  qed
qed


lemma sint_small:
  fixes x :: "32 word"
  assumes "unat x + 8 < 65536"
  shows "sint (x + 8) = int (unat x) + 8"
proof -
  have n: "unat x = nat (uint x)" by simp
  have ux: "uint x < 65528" using assms unfolding n by linarith
  have "uint x + uint (8 :: 32 word) < 2 ^ LENGTH(32)"
    using ux by simp
  then have "uint (x + 8) = uint x + uint (8 :: 32 word)"
    by (simp only: uint_add_lem)
  then have ui: "uint (x + 8) = uint x + 8" by simp
  have "sint (x + 8) = signed_take_bit (LENGTH(32) - Suc 0) (uint (x + 8))"
    by (rule sint_uint)
  also have "\<dots> = uint (x + 8)"
    unfolding ui using ux by (intro signed_take_bit_int_eq_self) simp_all
  finally show ?thesis using ui by simp
qed

lemma memmove_nat:
  "src + m \<le> length p \<Longrightarrow> dst + m \<le> length p \<Longrightarrow>
   memmove p dst src (int m) = Some (write_bytes p dst (read_bytes p src m))"
  by (simp add: memmove_def)

lemma cell_length_disk:
  assumes "disk_length c < 65536"
  shows "cell_length c = int (disk_length c)"
proof (cases "ctype c = PGTYPE_TABLE_LEAF")
  case True
  then have "unat (data_size c) + 8 < 65536"
    using assms by (simp add: disk_length_def format_defs)
  then have "sint (data_size c + 8) = int (unat (data_size c)) + 8"
    by (rule sint_small)
  then show ?thesis
    using True by (simp add: cell_length_def disk_length_def format_defs)
next
  case False
  then show ?thesis
    by (simp add: cell_length_def disk_length_def)
qed

definition inserted_data :: "BTreeNode \<Rightarrow> ncell_t \<Rightarrow> BTreeCell \<Rightarrow> byte list" where
  "inserted_data btn ncell c =
     (let d1 = write_bytes (data (page btn)) (unat (cells_offset btn) - disk_length c) (cell_bytes c);
          off = celloffset_array btn + 2 * unat ncell;
          d2 = write_bytes d1 (off + 2) (read_bytes d1 off (unat (free_offset btn) - off))
      in write_bytes d2 off (bytes2 (cells_offset btn - of_nat (disk_length c))))"

lemma insertCell_defined:
  assumes "insertCell_contract btn ncell c"
  shows "chidb_Btree_insertCell btn ncell c =
     Some (CHIDB_OK,
           btn\<lparr>page := (page btn)\<lparr>data := inserted_data btn ncell c\<rparr>,
               n_cells := n_cells btn + 1,
               cells_offset := cells_offset btn - of_nat (disk_length c),
               free_offset := free_offset btn + 2\<rparr>)"
proof -
  let ?d = "data (page btn)"
  let ?L = "disk_length c"
  define co where "co = unat (cells_offset btn)"
  define fo where "fo = unat (free_offset btn)"
  define off where "off = celloffset_array btn + 2 * unat ncell"
  define d1 where "d1 = write_bytes ?d (co - ?L) (cell_bytes c)"
  define d2 where "d2 = write_bytes d1 (off + 2) (read_bytes d1 off (fo - off))"
  from assms have k: "unat ncell \<le> unat (n_cells btn)"
    and fo: "fo = celloffset_array btn + 2 * unat (n_cells btn)"
    and room: "fo + 2 + ?L \<le> co"
    and inpage: "co \<le> length ?d"
    and src: "ctype c = PGTYPE_TABLE_LEAF \<Longrightarrow> unat (data_size c) \<le> length (cdata c)"
    by (auto simp: insertCell_contract_def word_le_nat_alt co_def fo_def split: if_splits)
  have offfo: "off \<le> fo" using fo k by (simp add: off_def)
  have co16: "co < 65536"
    unfolding co_def using unsigned_less [of "cells_offset btn", where 'a = nat] by simp
  then have L16: "?L < 65536" using room by linarith
  have len: "cell_length c = int ?L" by (rule cell_length_disk [OF L16])
  have at: "int co - int ?L = int (co - ?L)" using room by linarith
  have ser: "serialize_cell ?d (int co - int ?L) c = Some d1"
    unfolding at d1_def using room inpage src by (intro serialize_cell_Some) simp_all
  have cnt: "int fo - int off = int (fo - off)" using offfo by linarith
  have l1: "length d1 = length ?d" by (simp add: d1_def)
  have "memmove d1 (off + 2) off (int (fo - off)) = Some d2"
    unfolding d2_def by (rule memmove_nat) (use offfo room inpage in \<open>simp_all add: l1\<close>)
  then have mm: "memmove d1 (off + 2) off (int fo - int off) = Some d2"
    by (simp only: cnt)
  have l2: "length d2 = length ?d" by (simp add: d2_def l1)
  have st: "store_bytes d2 (int off) bs = Some (write_bytes d2 off bs)" if "length bs = 2" for bs
    using that offfo room inpage by (simp add: store_bytes_def l2)
  have w: "word_of_int (int ?L) = (of_nat ?L :: uint16_t)" by simp
  have D: "inserted_data btn ncell c = write_bytes d2 off (bytes2 (cells_offset btn - of_nat ?L))"
    by (simp add: inserted_data_def Let_def d2_def d1_def off_def co_def fo_def)
  show ?thesis
    unfolding chidb_Btree_insertCell_def Let_def len w D
    unfolding co_def [symmetric] fo_def [symmetric] off_def [symmetric]
    by (simp only: ser mm st length_encodings bind.simps)
qed


lemma byte_at_layers:
  fixes d :: "byte list"
  assumes "off \<le> fo" "fo + 2 + length bs \<le> co" "co \<le> length d" "length v2 = 2"
  defines "d1 \<equiv> write_bytes d (co - length bs) bs"
  shows "byte_at (write_bytes (write_bytes d1 (off + 2) (read_bytes d1 off (fo - off))) off v2) i =
     (if i < off then byte_at d i
      else if i < off + 2 then byte_at v2 (i - off)
      else if i < fo + 2 then byte_at d (i - 2)
      else if i < co - length bs then byte_at d i
      else if i < co then byte_at bs (i - (co - length bs))
      else byte_at d i)"
  using assms(1-4) unfolding d1_def
  by (simp add: byte_at_simps) (auto simp: byte_at_beyond)


lemma get2byte_cong:
  "byte_at p i = byte_at q j \<Longrightarrow> byte_at p (i + 1) = byte_at q (j + 1) \<Longrightarrow>
   get2byte p i = get2byte q j"
  by (simp add: get2byte_def)

lemma get2byte_bytes2_at:
  "byte_at p i = byte_at (bytes2 v) 0 \<Longrightarrow> byte_at p (i + 1) = byte_at (bytes2 v) 1 \<Longrightarrow>
   get2byte p i = v"
  by (simp add: get2byte_def bytes2_def byte_at_simps word16_of_bytes)

lemma insertCell_post_holds:
  assumes c: "insertCell_contract btn ncell c"
  defines "btn' \<equiv> btn\<lparr>page := (page btn)\<lparr>data := inserted_data btn ncell c\<rparr>,
                        n_cells := n_cells btn + 1,
                        cells_offset := cells_offset btn - of_nat (disk_length c),
                        free_offset := free_offset btn + 2\<rparr>"
  shows "insertCell_post btn ncell c btn'"
proof -
  let ?d = "data (page btn)"
  let ?L = "disk_length c"
  let ?arr = "celloffset_array btn"
  define co where "co = unat (cells_offset btn)"
  define fo where "fo = unat (free_offset btn)"
  define k where "k = unat ncell"
  define n where "n = unat (n_cells btn)"
  define off where "off = ?arr + 2 * k"
  define v where "v = cells_offset btn - of_nat ?L"
  let ?d' = "inserted_data btn ncell c"
  from c have kn: "k \<le> n"
    and fo: "fo = ?arr + 2 * n"
    and room: "fo + 2 + ?L \<le> co"
    and inpage: "co \<le> length ?d"
    and src: "ctype c = PGTYPE_TABLE_LEAF \<Longrightarrow> unat (data_size c) \<le> length (cdata c)"
    by (auto simp: insertCell_contract_def word_le_nat_alt co_def fo_def k_def n_def
          split: if_splits)
  have lb: "length (cell_bytes c) = ?L" by (rule length_cell_bytes) (rule src)
  have offfo: "off \<le> fo" using fo kn by (simp add: off_def)
  have co16: "co < 65536"
    unfolding co_def using unsigned_less [of "cells_offset btn", where 'a = nat] by simp
  have D: "?d' = write_bytes
      (write_bytes (write_bytes ?d (co - length (cell_bytes c)) (cell_bytes c)) (off + 2)
         (read_bytes (write_bytes ?d (co - length (cell_bytes c)) (cell_bytes c)) off (fo - off)))
      off (bytes2 v)"
    by (simp add: inserted_data_def Let_def off_def co_def fo_def k_def v_def lb)
  have B: "byte_at ?d' i =
     (if i < off then byte_at ?d i
      else if i < off + 2 then byte_at (bytes2 v) (i - off)
      else if i < fo + 2 then byte_at ?d (i - 2)
      else if i < co - ?L then byte_at ?d i
      else if i < co then byte_at (cell_bytes c) (i - (co - ?L))
      else byte_at ?d i)" for i
    unfolding D using byte_at_layers [OF offfo _ inpage, of "cell_bytes c" "bytes2 v" i] room
    by (simp add: lb)
  have B_low: "byte_at ?d' i = byte_at ?d i" if "i < off" for i
    using that by (simp only: B if_True)
  have B_new: "byte_at ?d' i = byte_at (bytes2 v) (i - off)" if "off \<le> i" "i < off + 2" for i
  proof -
    have "\<not> i < off" using that by linarith
    then show ?thesis using that(2) by (simp only: B if_False if_True)
  qed
  have B_shift: "byte_at ?d' i = byte_at ?d (i - 2)" if "off + 2 \<le> i" "i < fo + 2" for i
  proof -
    have "\<not> i < off" "\<not> i < off + 2" using that by linarith+
    then show ?thesis using that(2) by (simp only: B if_False if_True)
  qed
  have B_cell: "byte_at ?d' i = byte_at (cell_bytes c) (i - (co - ?L))"
    if "co - ?L \<le> i" "i < co" for i
  proof -
    have "\<not> i < off" "\<not> i < off + 2" "\<not> i < fo + 2" "\<not> i < co - ?L"
      using that room offfo by linarith+
    then show ?thesis using that(2) by (simp only: B if_False if_True)
  qed
  have B_high: "byte_at ?d' i = byte_at ?d i" if "co \<le> i" for i
  proof -
    have "\<not> i < off" "\<not> i < off + 2" "\<not> i < fo + 2" "\<not> i < co - ?L" "\<not> i < co"
      using that room offfo by linarith+
    then show ?thesis by (simp only: B if_False)
  qed
  have len: "length ?d' = length ?d" by (simp add: inserted_data_def Let_def)
  have uL: "unat (of_nat ?L :: uint16_t) = ?L"
    by (rule le_unat_uoi [of _ "cells_offset btn"]) (use room in \<open>simp add: co_def\<close>)
  have uv: "unat v = co - ?L"
  proof -
    have "(of_nat ?L :: uint16_t) \<le> cells_offset btn"
      using room uL by (simp add: word_le_nat_alt co_def)
    then show ?thesis
      by (simp add: v_def unat_sub uL co_def)
  qed
  have n1: "unat (n_cells btn + 1) = n + 1"
  proof -
    have "n + 1 < 65536" using fo room co16 by linarith
    then have "unat (n_cells btn) + unat (1 :: ncell_t) < 2 ^ LENGTH(16)"
      by (simp add: n_def)
    then have "unat (n_cells btn + 1) = unat (n_cells btn) + unat (1 :: ncell_t)"
      by (simp only: unat_add_lem)
    then show ?thesis by (simp add: n_def)
  qed
  have cellb: "read_bytes ?d' (co - ?L) ?L = cell_bytes c"
  proof (rule list_eq_byte_at)
    show "length (read_bytes ?d' (co - ?L) ?L) = length (cell_bytes c)" by (simp add: lb)
    fix i assume "i < length (read_bytes ?d' (co - ?L) ?L)"
    then have i: "i < ?L" by simp
    have "byte_at ?d' (co - ?L + i) = byte_at (cell_bytes c) (co - ?L + i - (co - ?L))"
      by (rule B_cell) (use i room in linarith)+
    then show "byte_at (read_bytes ?d' (co - ?L) ?L) i = byte_at (cell_bytes c) i"
      using i by (simp add: byte_at_read_bytes)
  qed
  have area: "drop co ?d' = drop co ?d"
    by (rule list_eq_byte_at) (simp_all add: len byte_at_drop B_high)
  have hdr: "take ?arr ?d' = take ?arr ?d"
    by (rule list_eq_byte_at) (simp_all add: len byte_at_take B_low off_def)
  let ?E = "offset_array btn"
  have lE: "length ?E = n" by (simp add: offset_array_def n_def)
  have arr': "offset_array btn' = map (\<lambda>j. get2byte ?d' (?arr + 2 * j)) [0..<n + 1]"
    by (simp add: offset_array_def btn'_def n1 del: upt_Suc)
  have offs: "offset_array btn' = take k ?E @ v # drop k ?E"
  proof (rule nth_equalityI)
    show "length (offset_array btn') = length (take k ?E @ v # drop k ?E)"
      using kn by (simp add: arr' lE del: upt_Suc)
    fix j assume "j < length (offset_array btn')"
    then have j: "j < n + 1" by (simp add: arr' del: upt_Suc)
    then have lhs: "offset_array btn' ! j = get2byte ?d' (?arr + 2 * j)"
      unfolding arr' by (simp del: upt_Suc)
    consider (before) "j < k" | (new) "j = k" | (after) "k < j" by linarith
    then show "offset_array btn' ! j = (take k ?E @ v # drop k ?E) ! j"
    proof cases
      case before
      then have "get2byte ?d' (?arr + 2 * j) = get2byte ?d (?arr + 2 * j)"
        by (intro get2byte_cong B_low) (simp_all add: off_def)
      moreover have "(take k ?E @ v # drop k ?E) ! j = ?E ! j"
        using before kn by (simp add: nth_append lE)
      moreover have "?E ! j = get2byte ?d (?arr + 2 * j)"
        using before kn by (simp add: offset_array_def n_def [symmetric])
      ultimately show ?thesis using lhs by simp
    next
      case new
      have "byte_at ?d' (?arr + 2 * j) = byte_at (bytes2 v) (?arr + 2 * j - off)"
        "byte_at ?d' (?arr + 2 * j + 1) = byte_at (bytes2 v) (?arr + 2 * j + 1 - off)"
        by (rule B_new; simp add: off_def new)+
      then have "get2byte ?d' (?arr + 2 * j) = v"
        by (intro get2byte_bytes2_at) (simp_all add: off_def new)
      moreover have "(take k ?E @ v # drop k ?E) ! j = v"
        using new kn by (simp add: nth_append lE)
      ultimately show ?thesis using lhs by simp
    next
      case after
      then obtain j' where j': "j = Suc j'" "k \<le> j'" "j' < n"
        using j by (cases j) auto
      have "byte_at ?d' (?arr + 2 * j) = byte_at ?d (?arr + 2 * j - 2)"
        "byte_at ?d' (?arr + 2 * j + 1) = byte_at ?d (?arr + 2 * j + 1 - 2)"
        by (rule B_shift; use j' fo in \<open>simp add: off_def\<close>)+
      then have "get2byte ?d' (?arr + 2 * j) = get2byte ?d (?arr + 2 * j')"
        using j' by (intro get2byte_cong) simp_all
      moreover have "(take k ?E @ v # drop k ?E) ! j = ?E ! j'"
        using j' kn by (simp add: nth_append lE nth_Cons' Suc_diff_le)
      moreover have "?E ! j' = get2byte ?d (?arr + 2 * j')"
        using j' by (simp add: offset_array_def n_def [symmetric])
      ultimately show ?thesis using lhs by simp
    qed
  qed
  have fields: "cells_offset btn' = v" "data (page btn') = ?d'" "n_cells btn' = n_cells btn + 1"
    "free_offset btn' = free_offset btn + 2" "ntype btn' = ntype btn"
    "right_page btn' = right_page btn" "celloffset_array btn' = ?arr"
    "npage (page btn') = npage (page btn)"
    by (simp_all add: btn'_def v_def)
  show ?thesis
    unfolding insertCell_post_def fields uv
    using room cellb offs area hdr len
    by (simp add: co_def [symmetric] k_def [symmetric])
qed

lemma insertCell_status:
  "chidb_Btree_insertCell btn ncell c = Some (st, btn') \<Longrightarrow> st = CHIDB_OK"
  by (auto simp: chidb_Btree_insertCell_def Let_def split: bind_splits)

text \<open>
  C10. \<open>chidb_Btree_insertCell\<close> looks neither at \<open>ncell\<close> nor at the free space and
  has no path that returns \<open>CHIDB_ECELLNO\<close>: whenever it returns, it returns
  \<open>CHIDB_OK\<close>. Under the caller's contract it returns, with the cell serialised at
  \<open>cells_offset\<close> minus the cell's length, the entries of the offset array from
  \<open>ncell\<close> on moved up by one, the new offset at entry \<open>ncell\<close>, \<open>n_cells\<close> grown by 1
  and \<open>free_offset\<close> by 2.
\<close>

theorem insertCell_serializes:
  "(\<forall>st btn'. chidb_Btree_insertCell btn ncell c = Some (st, btn') \<longrightarrow> st = CHIDB_OK)
   \<and> (insertCell_contract btn ncell c \<longrightarrow>
        (\<exists>btn'. chidb_Btree_insertCell btn ncell c = Some (CHIDB_OK, btn')
                \<and> insertCell_post btn ncell c btn'))"
proof (intro conjI allI impI)
  fix st btn'
  assume "chidb_Btree_insertCell btn ncell c = Some (st, btn')"
  then show "st = CHIDB_OK" by (rule insertCell_status)
next
  assume "insertCell_contract btn ncell c"
  then show "\<exists>btn'. chidb_Btree_insertCell btn ncell c = Some (CHIDB_OK, btn')
                \<and> insertCell_post btn ncell c btn'"
    using insertCell_defined insertCell_post_holds by blast
qed

text \<open>
  A table leaf without cells in a page of 1024 bytes, and a cell with key 5 and two
  bytes of payload.
\<close>

definition empty_leaf_page :: "byte list" where
  "empty_leaf_page = [0x0D, 0x00, 0x08, 0x00, 0x00, 0x04, 0x00, 0x00] @ replicate 1016 0"

definition empty_node :: "npage_t \<Rightarrow> BTreeNode" where
  "empty_node n = \<lparr>page = \<lparr>npage = n, data = empty_leaf_page\<rparr>, ntype = 0x0D, free_offset = 8,
     n_cells = 0, cells_offset = 1024, right_page = 0, celloffset_array = 8\<rparr>"

theorem insertCell_serializes_witness:
  "insertCell_contract (empty_node 2) 0 (table_cell 5 [0xAA, 0xBB] 2)
   \<and> (\<exists>btn'. chidb_Btree_insertCell (empty_node 2) 0 (table_cell 5 [0xAA, 0xBB] 2)
                = Some (CHIDB_OK, btn')
              \<and> insertCell_post (empty_node 2) 0 (table_cell 5 [0xAA, 0xBB] 2) btn')"
  using insertCell_serializes [of "empty_node 2" 0 "table_cell 5 [0xAA, 0xBB] 2"]
  by (simp add: insertCell_contract_def empty_node_def empty_leaf_page_def table_cell_def
        disk_length_def format_defs)

text \<open>
  Cell number 1 on the node without cells: the count of the \<^verbatim>\<open>memmove\<close> is
  \<open>free_offset\<close> minus the offset of entry 1, which is \<open>8 - 10\<close>.
\<close>

theorem insertCell_beyond_n_cells:
  "chidb_Btree_insertCell (empty_node 2) 1 (table_cell 5 [0xAA, 0xBB] 2) = None"
  by (simp add: chidb_Btree_insertCell_def Let_def serialize_cell_def memcpy_from_def
        store_bytes_def memmove_def cell_length_def empty_node_def empty_leaf_page_def
        table_cell_def format_defs)

section \<open>Table B-Trees\<close>

text \<open>
  What a page is as the root of a table B-Tree, read through
  \<open>chidb_Btree_getNodeByPage\<close> and \<open>chidb_Btree_getCell\<close>. \<open>table_tree h bt n lo hi\<close>:
  page \<open>n\<close> is the root of a table B-Tree of height at most \<open>h\<close>, with every key in
  it above \<open>lo\<close> and at most \<open>hi\<close>. The keys of a node increase strictly; the subtree
  under a cell's child holds keys above the cell before and up to the cell's key; the
  subtree under the right page holds keys above the last cell. This is a search tree:
  the bound from below on the keys under a cell's child is more than invariant 2 of
  the spec asks (\<open>key_order_invariants\<close> below). The cell offset array of a node, the
  eight bytes at the head of every cell and the payload of every leaf cell lie inside
  the page, so that no read of the source leaves the page buffer.
  \<open>tree_cells h bt n\<close> lists the leaf cells of the tree from left to right.
\<close>

definition node_cells :: "BTreeNode \<Rightarrow> BTreeCell list" where
  "node_cells nd = map (\<lambda>i. cell_of (chidb_Btree_getCell nd (of_nat i))) [0..<unat (n_cells nd)]"

definition payload :: "BTreeCell \<Rightarrow> byte list" where
  "payload c = take (unat (data_size c)) (cdata c)"

fun leaf_keys :: "BTreeCell list \<Rightarrow> int \<Rightarrow> int \<Rightarrow> bool" where
  "leaf_keys [] lo hi = True"
| "leaf_keys (c # cs) lo hi =
     (lo < uint (ckey c) \<and> uint (ckey c) \<le> hi \<and> leaf_keys cs (uint (ckey c)) hi)"

fun kids :: "(int \<Rightarrow> int \<Rightarrow> npage_t \<Rightarrow> bool) \<Rightarrow> BTreeCell list \<Rightarrow> int \<Rightarrow> int \<Rightarrow> npage_t \<Rightarrow> bool" where
  "kids P [] lo hi r = P lo hi r"
| "kids P (c # cs) lo hi r =
     (lo < uint (ckey c) \<and> uint (ckey c) \<le> hi \<and> P lo (uint (ckey c)) (child_page c)
      \<and> kids P cs (uint (ckey c)) hi r)"

fun table_tree :: "nat \<Rightarrow> BTree \<Rightarrow> npage_t \<Rightarrow> int \<Rightarrow> int \<Rightarrow> bool" where
  "table_tree 0 bt n lo hi = False"
| "table_tree (Suc h) bt n lo hi =
     (case chidb_Btree_getNodeByPage bt n of
        Inl err \<Rightarrow> False
      | Inr nd \<Rightarrow>
          celloffset_array nd + 2 * unat (n_cells nd) \<le> length (data (page nd))
          \<and> list_all (\<lambda>off. unat off + 8 \<le> length (data (page nd))) (offset_array nd)
          \<and> (if ntype nd = PGTYPE_TABLE_LEAF then
                leaf_keys (node_cells nd) lo hi
                \<and> list_all (\<lambda>c. unat (data_size c) \<le> length (cdata c)) (node_cells nd)
              else
                ntype nd = PGTYPE_TABLE_INTERNAL
                \<and> kids (\<lambda>lo hi p. table_tree h bt p lo hi) (node_cells nd) lo hi
                      (right_page nd)))"

fun tree_cells :: "nat \<Rightarrow> BTree \<Rightarrow> npage_t \<Rightarrow> BTreeCell list" where
  "tree_cells 0 bt n = []"
| "tree_cells (Suc h) bt n =
     (case chidb_Btree_getNodeByPage bt n of
        Inl err \<Rightarrow> []
      | Inr nd \<Rightarrow>
          if ntype nd = PGTYPE_TABLE_LEAF then node_cells nd
          else concat (map (\<lambda>c. tree_cells h bt (child_page c)) (node_cells nd))
               @ tree_cells h bt (right_page nd))"

fun find_cells :: "byte \<Rightarrow> npage_t \<Rightarrow> chidb_key_t \<Rightarrow> BTreeCell list \<Rightarrow> find_next" where
  "find_cells ty r key [] =
     (if ty = PGTYPE_TABLE_LEAF then Return CHIDB_ENOTFOUND None else Descend r)"
| "find_cells ty r key (c # cs) =
     (if ckey c = key \<and> ty = PGTYPE_TABLE_LEAF then
        Return CHIDB_OK
          (Some (take (unat (ucast (data_size c) :: uint16_t)) (cdata c), ucast (data_size c)))
      else if key \<le> ckey c then
        (if ty = PGTYPE_TABLE_LEAF then Return CHIDB_ENOTFOUND None else Descend (child_page c))
      else find_cells ty r key cs)"

lemma length_node_cells [simp]: "length (node_cells nd) = unat (n_cells nd)"
  by (simp add: node_cells_def)

lemma node_cells_nth:
  "i < unat (n_cells nd) \<Longrightarrow> node_cells nd ! i = cell_of (chidb_Btree_getCell nd (of_nat i))"
  by (simp add: node_cells_def)

lemma find_loop_cells:
  "i \<le> unat (n_cells nd) \<Longrightarrow>
   find_loop nd key i = find_cells (ntype nd) (right_page nd) key (drop i (node_cells nd))"
proof (induction nd key i rule: find_loop.induct)
  case (1 nd key i)
  show ?case
  proof (cases "i < unat (n_cells nd)")
    case True
    then have d: "drop i (node_cells nd) =
        cell_of (chidb_Btree_getCell nd (of_nat i)) # drop (Suc i) (node_cells nd)"
      by (simp add: Cons_nth_drop_Suc [symmetric] node_cells_nth)
    show ?thesis
      using True "1.IH" [OF True refl]
      by (subst find_loop.simps) (simp add: d Let_def)
  next
    case False
    then show ?thesis
      using "1.prems" by (subst find_loop.simps) simp
  qed
qed


fun descend_cells :: "npage_t \<Rightarrow> chidb_key_t \<Rightarrow> BTreeCell list \<Rightarrow> npage_t" where
  "descend_cells r key [] = r"
| "descend_cells r key (c # cs) = (if key \<le> ckey c then child_page c else descend_cells r key cs)"

definition find_spec :: "BTreeCell list \<Rightarrow> chidb_key_t \<Rightarrow> status \<times> (byte list \<times> uint16_t) option" where
  "find_spec cs key =
     (case List.find (\<lambda>c. ckey c = key) cs of
        None \<Rightarrow> (CHIDB_ENOTFOUND, None)
      | Some c \<Rightarrow> (CHIDB_OK, Some (payload c, ucast (data_size c))))"

lemma leaf_keys_range:
  "leaf_keys cs lo hi \<Longrightarrow> c \<in> set cs \<Longrightarrow> lo < uint (ckey c) \<and> uint (ckey c) \<le> hi"
  by (induction cs arbitrary: lo) force+

lemma find_cells_leaf:
  "leaf_keys cs lo hi \<Longrightarrow>
   find_cells PGTYPE_TABLE_LEAF r key cs =
     (case List.find (\<lambda>c. ckey c = key) cs of
        None \<Rightarrow> Return CHIDB_ENOTFOUND None
      | Some c \<Rightarrow>
          Return CHIDB_OK
            (Some (take (unat (ucast (data_size c) :: uint16_t)) (cdata c), ucast (data_size c))))"
proof (induction cs arbitrary: lo)
  case Nil
  then show ?case by simp
next
  case (Cons c cs)
  show ?case
  proof (cases "ckey c = key")
    case True
    then show ?thesis by simp
  next
    case neq: False
    show ?thesis
    proof (cases "key \<le> ckey c")
      case True
      have "\<And>x. x \<in> set cs \<Longrightarrow> ckey x \<noteq> key"
      proof
        fix x assume "x \<in> set cs" and "ckey x = key"
        then have "uint (ckey c) < uint key"
          using leaf_keys_range [of cs "uint (ckey c)" hi x] Cons.prems by simp
        then show False using True by (simp add: word_le_def)
      qed
      then have "List.find (\<lambda>c. ckey c = key) cs = None"
        by (simp add: find_None_iff)
      then show ?thesis using neq True by simp
    next
      case False
      then show ?thesis using neq Cons.IH [of "uint (ckey c)"] Cons.prems by simp
    qed
  qed
qed

lemma find_cells_internal:
  "ty \<noteq> PGTYPE_TABLE_LEAF \<Longrightarrow> find_cells ty r key cs = Descend (descend_cells r key cs)"
  by (induction cs) auto

lemma kids_mono:
  "(\<And>lo hi p. P lo hi p \<Longrightarrow> Q lo hi p) \<Longrightarrow> kids P cs lo hi r \<Longrightarrow> kids Q cs lo hi r"
  by (induction cs arbitrary: lo) auto

lemma kids_descend: "kids P cs lo hi r \<Longrightarrow> \<exists>lo' hi'. P lo' hi' (descend_cells r key cs)"
  by (induction cs arbitrary: lo) auto

definition in_range :: "(npage_t \<Rightarrow> BTreeCell list) \<Rightarrow> int \<Rightarrow> int \<Rightarrow> npage_t \<Rightarrow> bool" where
  "in_range T lo hi p \<longleftrightarrow> (\<forall>x\<in>set (T p). lo < uint (ckey x) \<and> uint (ckey x) \<le> hi)"

lemma kids_range:
  "kids (in_range T) cs lo hi r \<Longrightarrow>
   x \<in> set (concat (map (\<lambda>c. T (child_page c)) cs) @ T r) \<Longrightarrow>
   lo < uint (ckey x) \<and> uint (ckey x) \<le> hi"
proof (induction cs arbitrary: lo)
  case Nil
  then show ?case by (simp add: in_range_def)
next
  case (Cons c cs)
  from Cons.prems(2) consider "x \<in> set (T (child_page c))"
    | "x \<in> set (concat (map (\<lambda>c. T (child_page c)) cs) @ T r)"
    by auto
  then show ?case
  proof cases
    case 1
    then show ?thesis using Cons.prems(1) by (auto simp: in_range_def)
  next
    case 2
    then have "uint (ckey c) < uint (ckey x) \<and> uint (ckey x) \<le> hi"
      using Cons.IH [of "uint (ckey c)"] Cons.prems(1) by simp
    then show ?thesis using Cons.prems(1) by simp
  qed
qed

lemma find_append:
  "List.find P (xs @ ys) = (case List.find P xs of None \<Rightarrow> List.find P ys | Some x \<Rightarrow> Some x)"
  by (induction xs) auto

lemma kids_find:
  "kids (in_range T) cs lo hi r \<Longrightarrow>
   List.find (\<lambda>c. ckey c = key) (concat (map (\<lambda>c. T (child_page c)) cs) @ T r) =
   List.find (\<lambda>c. ckey c = key) (T (descend_cells r key cs))"
proof (induction cs arbitrary: lo)
  case Nil
  then show ?case by simp
next
  case (Cons c cs)
  let ?rest = "concat (map (\<lambda>c. T (child_page c)) cs) @ T r"
  show ?case
  proof (cases "key \<le> ckey c")
    case True
    have "\<And>x. x \<in> set ?rest \<Longrightarrow> ckey x \<noteq> key"
    proof
      fix x assume "x \<in> set ?rest" and "ckey x = key"
      then have "uint (ckey c) < uint key"
        using kids_range [of T cs "uint (ckey c)" hi r x] Cons.prems by simp
      then show False using True by (simp add: word_le_def)
    qed
    then have "List.find (\<lambda>c. ckey c = key) ?rest = None"
      by (simp only: find_None_iff) blast
    then show ?thesis
      using True by (simp add: find_append split: option.splits)
  next
    case False
    have "\<And>x. x \<in> set (T (child_page c)) \<Longrightarrow> ckey x \<noteq> key"
    proof
      fix x assume "x \<in> set (T (child_page c))" and "ckey x = key"
      then have "uint key \<le> uint (ckey c)"
        using Cons.prems by (auto simp: in_range_def)
      then show False using False by (simp add: word_le_def)
    qed
    then have "List.find (\<lambda>c. ckey c = key) (T (child_page c)) = None"
      by (simp only: find_None_iff) blast
    then show ?thesis
      using False Cons.IH [of "uint (ckey c)"] Cons.prems by (simp add: find_append)
  qed
qed

lemma table_tree_in_range:
  "table_tree h bt p lo hi \<Longrightarrow> in_range (tree_cells h bt) lo hi p"
proof (induction h arbitrary: p lo hi)
  case 0
  then show ?case by simp
next
  case (Suc h)
  from Suc.prems obtain nd where nd: "chidb_Btree_getNodeByPage bt p = Inr nd"
    by (auto split: sum.splits)
  show ?case
  proof (cases "ntype nd = PGTYPE_TABLE_LEAF")
    case True
    then show ?thesis
      using Suc.prems nd leaf_keys_range [of "node_cells nd" lo hi]
      by (auto simp: in_range_def)
  next
    case False
    then have k: "kids (\<lambda>lo hi p. table_tree h bt p lo hi) (node_cells nd) lo hi (right_page nd)"
      using Suc.prems nd by simp
    have "kids (in_range (tree_cells h bt)) (node_cells nd) lo hi (right_page nd)"
      by (rule kids_mono [OF _ k]) (rule Suc.IH)
    then show ?thesis
      using nd False kids_range [of "tree_cells h bt" "node_cells nd" lo hi "right_page nd"]
      unfolding in_range_def by simp
  qed
qed


lemma getNodeByPage_length:
  "chidb_Btree_getNodeByPage bt n = Inr nd \<Longrightarrow> length (data (page nd)) = unat (page_size bt)"
  by (auto simp: chidb_Btree_getNodeByPage_def chidb_Pager_readPage_def Let_def
      split: if_splits)

lemma getCell_cdata_length:
  "length (cdata (cell_of (chidb_Btree_getCell nd i))) \<le> length (data (page nd))"
  by (simp add: chidb_Btree_getCell_def cell_of_def zero_cell_def Let_def)

lemma node_cells_cdata_length:
  "c \<in> set (node_cells nd) \<Longrightarrow> length (cdata c) \<le> length (data (page nd))"
  by (auto simp: node_cells_def getCell_cdata_length)

lemma ucast_size16:
  fixes ds :: uint32_t
  assumes "unat ds < 65536"
  shows "unat (ucast ds :: uint16_t) = unat ds"
  using assms by (simp add: unsigned_ucast_eq take_bit_nat_eq_self)

lemma leaf_out:
  assumes nd: "chidb_Btree_getNodeByPage bt n = Inr nd"
    and c: "c \<in> set (node_cells nd)"
    and ok: "unat (data_size c) \<le> length (cdata c)"
  shows "take (unat (ucast (data_size c) :: uint16_t)) (cdata c) = payload c"
    and "unat (ucast (data_size c) :: uint16_t) = unat (data_size c)"
    and "length (payload c) = unat (data_size c)"
proof -
  have "length (cdata c) \<le> unat (page_size bt)"
    using node_cells_cdata_length [OF c] getNodeByPage_length [OF nd] by simp
  moreover have "unat (page_size bt) < 65536"
    using unsigned_less [of "page_size bt", where 'a = nat] by simp
  ultimately have "unat (data_size c) < 65536" using ok by linarith
  then show u: "unat (ucast (data_size c) :: uint16_t) = unat (data_size c)"
    by (rule ucast_size16)
  show "take (unat (ucast (data_size c) :: uint16_t)) (cdata c) = payload c"
    by (simp add: u payload_def)
  show "length (payload c) = unat (data_size c)"
    using ok by (simp add: payload_def)
qed

text \<open>
  C1. On a table B-Tree that is a search tree (\<open>table_tree\<close>: the key-order
  invariants, and the keys under a cell's child above the key of the cell before),
  \<open>chidb_Btree_find\<close> returns: \<open>CHIDB_OK\<close> with the payload bytes and the size of the
  leaf cell that holds the key, when there is one; \<open>CHIDB_ENOTFOUND\<close>, with the
  out-parameters not set, when there is none. The file it leaves is the file it was
  given.
\<close>

theorem find_correct:
  assumes "table_tree h bt nroot lo hi"
  shows "chidb_Btree_find bt nroot key = Some (find_spec (tree_cells h bt nroot) key, bt)"
  using assms
proof (induction h arbitrary: nroot lo hi)
  case 0
  then show ?case by simp
next
  case (Suc h)
  from Suc.prems obtain nd where nd: "chidb_Btree_getNodeByPage bt nroot = Inr nd"
    by (auto split: sum.splits)
  show ?case
  proof (cases "ntype nd = PGTYPE_TABLE_LEAF")
    case True
    have lk: "leaf_keys (node_cells nd) lo hi"
      and ok: "list_all (\<lambda>c. unat (data_size c) \<le> length (cdata c)) (node_cells nd)"
      using Suc.prems nd True by simp_all
    have loop: "find_loop nd key 0 =
        (case List.find (\<lambda>c. ckey c = key) (node_cells nd) of
           None \<Rightarrow> Return CHIDB_ENOTFOUND None
         | Some c \<Rightarrow>
             Return CHIDB_OK
               (Some (take (unat (ucast (data_size c) :: uint16_t)) (cdata c),
                      ucast (data_size c))))"
      using find_loop_cells [of 0 nd key] find_cells_leaf [OF lk] True by simp
    show ?thesis
    proof (cases "List.find (\<lambda>c. ckey c = key) (node_cells nd)")
      case None
      then show ?thesis
        using nd True loop
        by (subst chidb_Btree_find.simps) (simp add: find_spec_def)
    next
      case (Some c)
      then have "c \<in> set (node_cells nd)"
        by (auto simp: find_Some_iff)
      moreover from this have "unat (data_size c) \<le> length (cdata c)"
        using ok by (simp add: list_all_iff)
      ultimately have "take (unat (ucast (data_size c) :: uint16_t)) (cdata c) = payload c"
        using leaf_out(1) [OF nd] by blast
      then show ?thesis
        using nd True loop Some
        by (subst chidb_Btree_find.simps) (simp add: find_spec_def)
    qed
  next
    case False
    then have k: "kids (\<lambda>lo hi p. table_tree h bt p lo hi) (node_cells nd) lo hi (right_page nd)"
      using Suc.prems nd by simp
    let ?t = "descend_cells (right_page nd) key (node_cells nd)"
    have loop: "find_loop nd key 0 = Descend ?t"
      using find_loop_cells [of 0 nd key] find_cells_internal [OF False] by simp
    obtain lo' hi' where "table_tree h bt ?t lo' hi'"
      using kids_descend [OF k] by blast
    then have rec: "chidb_Btree_find bt ?t key = Some (find_spec (tree_cells h bt ?t) key, bt)"
      by (rule Suc.IH)
    have "kids (in_range (tree_cells h bt)) (node_cells nd) lo hi (right_page nd)"
      by (rule kids_mono [OF _ k]) (rule table_tree_in_range)
    then have "find_spec (tree_cells (Suc h) bt nroot) key = find_spec (tree_cells h bt ?t) key"
      using nd False kids_find [of "tree_cells h bt" "node_cells nd" lo hi "right_page nd" key]
      by (simp add: find_spec_def)
    then show ?thesis
      using nd loop rec by (subst chidb_Btree_find.simps) simp
  qed
qed



subsection \<open>An example tree\<close>

definition example_page2 :: "byte list" where
  "example_page2 =
     [0x05, 0x00, 0x0E, 0x00, 0x01, 0x03, 0xF8, 0x00, 0x00, 0x00, 0x00, 0x03, 0x03, 0xF8]
     @ replicate 1002 0 @ [0x00, 0x00, 0x00, 0x04, 0x80, 0x80, 0x80, 0x05]"

definition example_page3 :: "byte list" where
  "example_page3 =
     [0x0D, 0x00, 0x0A, 0x00, 0x01, 0x03, 0xF5, 0x00, 0x03, 0xF5]
     @ replicate 1003 0 @ [0x80, 0x80, 0x80, 0x03, 0x80, 0x80, 0x80, 0x07, 0xDD, 0xEE, 0xFF]"

definition example_page4 :: "byte list" where
  "example_page4 =
     [0x0D, 0x00, 0x0C, 0x00, 0x02, 0x03, 0xED, 0x00, 0x03, 0xF6, 0x03, 0xED]
     @ replicate 993 0 @ [0x80, 0x80, 0x80, 0x01, 0x80, 0x80, 0x80, 0x05, 0xCC]
     @ [0x80, 0x80, 0x80, 0x02, 0x80, 0x80, 0x80, 0x03, 0xAA, 0xBB]"

definition example_bt :: BTree where
  "example_bt =
     \<lparr>page_size = 1024, n_pages = 4,
      pages = (\<lambda>_. [])(1 := canonical_header @ [0x0D, 0, 108, 0, 0, 0x04, 0, 0] @ replicate 916 0,
                        2 := example_page2, 3 := example_page3, 4 := example_page4)\<rparr>"

definition example_node2 :: BTreeNode where
  "example_node2 = \<lparr>page = \<lparr>npage = 2, data = example_page2\<rparr>, ntype = 0x05, free_offset = 14,
     n_cells = 1, cells_offset = 1016, right_page = 3, celloffset_array = 12\<rparr>"
definition example_node3 :: BTreeNode where
  "example_node3 = \<lparr>page = \<lparr>npage = 3, data = example_page3\<rparr>, ntype = 0x0D, free_offset = 10,
     n_cells = 1, cells_offset = 1013, right_page = 0, celloffset_array = 8\<rparr>"
definition example_node4 :: BTreeNode where
  "example_node4 = \<lparr>page = \<lparr>npage = 4, data = example_page4\<rparr>, ntype = 0x0D, free_offset = 12,
     n_cells = 2, cells_offset = 1005, right_page = 0, celloffset_array = 8\<rparr>"

lemmas eval_defs = chidb_Btree_getNodeByPage_def chidb_Pager_readPage_def Let_def
  get2byte_def get4byte_def getVarint32_def byte_at_simps format_defs

lemma example_nodes:
  "chidb_Btree_getNodeByPage example_bt 2 = Inr example_node2"
  "chidb_Btree_getNodeByPage example_bt 3 = Inr example_node3"
  "chidb_Btree_getNodeByPage example_bt 4 = Inr example_node4"
  by (simp_all add: eval_defs example_bt_def example_page2_def example_page3_def example_page4_def
        example_node2_def example_node3_def example_node4_def)

definition example_cell3 :: BTreeCell where
  "example_cell3 = \<lparr>ctype = 0x0D, ckey = 3, child_page = 0, data_size = 2, cdata = [0xAA, 0xBB], keyPk = 0\<rparr>"
definition example_cell5 :: BTreeCell where
  "example_cell5 = \<lparr>ctype = 0x0D, ckey = 5, child_page = 0, data_size = 1,
     cdata = [0xCC, 0x80, 0x80, 0x80, 0x02, 0x80, 0x80, 0x80, 0x03, 0xAA, 0xBB], keyPk = 0\<rparr>"
definition example_cell7 :: BTreeCell where
  "example_cell7 = \<lparr>ctype = 0x0D, ckey = 7, child_page = 0, data_size = 3, cdata = [0xDD, 0xEE, 0xFF], keyPk = 0\<rparr>"
definition example_cell_root :: BTreeCell where
  "example_cell_root = \<lparr>ctype = 0x05, ckey = 5, child_page = 4, data_size = 0, cdata = [], keyPk = 0\<rparr>"

lemma upt_2: "[0..<2] = [0, Suc 0]" by (simp add: upt_rec)

lemma example_cells:
  "node_cells example_node2 = [example_cell_root]"
  "node_cells example_node3 = [example_cell7]"
  "node_cells example_node4 = [example_cell3, example_cell5]"
  by (simp_all add: node_cells_def chidb_Btree_getCell_def cell_of_def eval_defs upt_2
        example_page2_def example_page3_def example_page4_def
        example_node2_def example_node3_def example_node4_def
        example_cell3_def example_cell5_def example_cell7_def example_cell_root_def)

lemma table_tree_pos:
  "0 < h \<Longrightarrow> table_tree h bt n lo hi =
     (case chidb_Btree_getNodeByPage bt n of
        Inl err \<Rightarrow> False
      | Inr nd \<Rightarrow>
          celloffset_array nd + 2 * unat (n_cells nd) \<le> length (data (page nd))
          \<and> list_all (\<lambda>off. unat off + 8 \<le> length (data (page nd))) (offset_array nd)
          \<and> (if ntype nd = PGTYPE_TABLE_LEAF then
                leaf_keys (node_cells nd) lo hi
                \<and> list_all (\<lambda>c. unat (data_size c) \<le> length (cdata c)) (node_cells nd)
              else
                ntype nd = PGTYPE_TABLE_INTERNAL
                \<and> kids (\<lambda>lo hi p. table_tree (h - 1) bt p lo hi) (node_cells nd) lo hi
                      (right_page nd)))"
  by (cases h) (simp_all split: sum.splits)

lemma tree_cells_pos:
  "0 < h \<Longrightarrow> tree_cells h bt n =
     (case chidb_Btree_getNodeByPage bt n of
        Inl err \<Rightarrow> []
      | Inr nd \<Rightarrow>
          if ntype nd = PGTYPE_TABLE_LEAF then node_cells nd
          else concat (map (\<lambda>c. tree_cells (h - 1) bt (child_page c)) (node_cells nd))
               @ tree_cells (h - 1) bt (right_page nd))"
  by (cases h) (simp_all split: sum.splits)

lemma example_fields:
  "ntype example_node2 = 0x05" "right_page example_node2 = 3"
  "ntype example_node3 = 0x0D" "ntype example_node4 = 0x0D"
  "n_cells example_node2 = 1" "n_cells example_node3 = 1" "n_cells example_node4 = 2"
  "celloffset_array example_node2 = 12" "celloffset_array example_node3 = 8"
  "celloffset_array example_node4 = 8"
  "length (data (page example_node2)) = 1024" "length (data (page example_node3)) = 1024"
  "length (data (page example_node4)) = 1024"
  by (simp_all add: example_node2_def example_node3_def example_node4_def
        example_page2_def example_page3_def example_page4_def)

lemma example_offsets:
  "offset_array example_node2 = [1016]"
  "offset_array example_node3 = [1013]"
  "offset_array example_node4 = [1014, 1005]"
  by (simp_all add: offset_array_def eval_defs upt_2
        example_page2_def example_page3_def example_page4_def
        example_node2_def example_node3_def example_node4_def)

lemma example_tree: "table_tree 2 example_bt 2 (-1) 4294967295"
  by (simp add: table_tree_pos tree_cells_pos example_nodes example_cells example_fields
        example_offsets
        format_defs example_cell3_def example_cell5_def example_cell7_def example_cell_root_def)

lemma example_tree_cells: "tree_cells 2 example_bt 2 = [example_cell3, example_cell5, example_cell7]"
  by (simp add: table_tree_pos tree_cells_pos example_nodes example_cells example_fields
        format_defs example_cell3_def example_cell5_def example_cell7_def example_cell_root_def)

text \<open>
  The example: page 2 is an internal node with the cell (key 5, child 4) and right
  page 3; page 4 is a leaf with keys 3 and 5, page 3 a leaf with key 7.
\<close>

theorem find_correct_witness:
  "table_tree 2 example_bt 2 (-1) 4294967295 \<and>
   chidb_Btree_find example_bt 2 7 = Some ((CHIDB_OK, Some ([0xDD, 0xEE, 0xFF], 3)), example_bt) \<and>
   chidb_Btree_find example_bt 2 4 = Some ((CHIDB_ENOTFOUND, None), example_bt)"
  using find_correct [OF example_tree, of 7] find_correct [OF example_tree, of 4]
  by (simp add: example_tree example_tree_cells find_spec_def payload_def
        example_cell3_def example_cell5_def example_cell7_def)

subsection \<open>The key-order invariants of the spec\<close>

text \<open>
  Invariants 1 and 2 of the spec's data model, in its words: the keys within one node
  are strictly increasing; for an internal node with cells \<open>c\<^sub>0 \<dots> c\<^sub>n\<^sub>-\<^sub>1\<close> and right
  page \<open>R\<close>, all keys in the subtree under the child of \<open>c\<^sub>i\<close> are at most the key of
  \<open>c\<^sub>i\<close>, and all keys in the subtree under \<open>R\<close> are above the key of \<open>c\<^sub>n\<^sub>-\<^sub>1\<close>.
  \<open>subtree_keys\<close> lists the keys of all cells of a subtree.
\<close>

fun subtree_keys :: "nat \<Rightarrow> BTree \<Rightarrow> npage_t \<Rightarrow> chidb_key_t list" where
  "subtree_keys 0 bt n = []"
| "subtree_keys (Suc h) bt n =
     (case chidb_Btree_getNodeByPage bt n of
        Inl err \<Rightarrow> []
      | Inr nd \<Rightarrow>
          map ckey (node_cells nd)
          @ (if ntype nd = PGTYPE_TABLE_LEAF then []
             else concat (map (\<lambda>c. subtree_keys h bt (child_page c)) (node_cells nd))
                  @ subtree_keys h bt (right_page nd)))"

fun key_order_invariants :: "nat \<Rightarrow> BTree \<Rightarrow> npage_t \<Rightarrow> bool" where
  "key_order_invariants 0 bt n = False"
| "key_order_invariants (Suc h) bt n =
     (case chidb_Btree_getNodeByPage bt n of
        Inl err \<Rightarrow> False
      | Inr nd \<Rightarrow>
          sorted_wrt (<) (map ckey (node_cells nd))
          \<and> (if ntype nd = PGTYPE_TABLE_LEAF then True
              else
                ntype nd = PGTYPE_TABLE_INTERNAL
                \<and> list_all (\<lambda>c. list_all (\<lambda>k. k \<le> ckey c) (subtree_keys h bt (child_page c))
                                \<and> key_order_invariants h bt (child_page c))
                     (node_cells nd)
                \<and> (if node_cells nd = [] then True
                    else list_all (\<lambda>k. ckey (last (node_cells nd)) < k)
                           (subtree_keys h bt (right_page nd)))
                \<and> key_order_invariants h bt (right_page nd)))"

text \<open>
  A tree that meets invariants 1 and 2: page 2 is an internal node with the cells
  (key 5, child 4) and (key 10, child 3) and right page 5; page 4 is a leaf with key
  3, page 3 a leaf with key 4, page 5 a leaf with key 20. Key 4 is stored in the leaf
  under the cell with key 10; \<open>chidb_Btree_find\<close> looks for it under the cell with key
  5 and returns \<open>CHIDB_ENOTFOUND\<close>.
\<close>

definition lax_root_page :: "byte list" where
  "lax_root_page =
     [0x05, 0x00, 0x10, 0x00, 0x02, 0x03, 0xF0, 0x00, 0x00, 0x00, 0x00, 0x05,
      0x03, 0xF8, 0x03, 0xF0]
     @ replicate 992 0
     @ [0x00, 0x00, 0x00, 0x03, 0x80, 0x80, 0x80, 0x0A]
     @ [0x00, 0x00, 0x00, 0x04, 0x80, 0x80, 0x80, 0x05]"

definition single_leaf_page :: "byte \<Rightarrow> byte list" where
  "single_leaf_page k =
     [0x0D, 0x00, 0x0A, 0x00, 0x01, 0x03, 0xF7, 0x00, 0x03, 0xF7] @ replicate 1005 0
     @ [0x80, 0x80, 0x80, 0x01, 0x80, 0x80, 0x80, k, 0xEE]"

definition lax_bt :: BTree where
  "lax_bt =
     \<lparr>page_size = 1024, n_pages = 5,
      pages = (\<lambda>_. [])(1 := canonical_header @ [0x0D, 0, 108, 0, 0, 0x04, 0, 0] @ replicate 916 0,
                        2 := lax_root_page, 3 := single_leaf_page 4, 4 := single_leaf_page 3,
                        5 := single_leaf_page 20)\<rparr>"

definition lax_root :: BTreeNode where
  "lax_root = \<lparr>page = \<lparr>npage = 2, data = lax_root_page\<rparr>, ntype = 0x05, free_offset = 16,
     n_cells = 2, cells_offset = 1008, right_page = 5, celloffset_array = 12\<rparr>"

definition single_leaf :: "npage_t \<Rightarrow> byte \<Rightarrow> BTreeNode" where
  "single_leaf n k = \<lparr>page = \<lparr>npage = n, data = single_leaf_page k\<rparr>, ntype = 0x0D,
     free_offset = 10, n_cells = 1, cells_offset = 1015, right_page = 0, celloffset_array = 8\<rparr>"

definition single_cell :: "chidb_key_t \<Rightarrow> BTreeCell" where
  "single_cell k = \<lparr>ctype = 0x0D, ckey = k, child_page = 0, data_size = 1, cdata = [0xEE], keyPk = 0\<rparr>"

definition pointer_cell :: "chidb_key_t \<Rightarrow> npage_t \<Rightarrow> BTreeCell" where
  "pointer_cell k p = \<lparr>ctype = 0x05, ckey = k, child_page = p, data_size = 0, cdata = [], keyPk = 0\<rparr>"

lemma lax_nodes:
  "chidb_Btree_getNodeByPage lax_bt 2 = Inr lax_root"
  "chidb_Btree_getNodeByPage lax_bt 3 = Inr (single_leaf 3 4)"
  "chidb_Btree_getNodeByPage lax_bt 4 = Inr (single_leaf 4 3)"
  "chidb_Btree_getNodeByPage lax_bt 5 = Inr (single_leaf 5 20)"
  by (simp_all add: eval_defs lax_bt_def lax_root_page_def single_leaf_page_def
        lax_root_def single_leaf_def)

lemma lax_cells:
  "node_cells lax_root = [pointer_cell 5 4, pointer_cell 10 3]"
  "node_cells (single_leaf 3 4) = [single_cell 4]"
  "node_cells (single_leaf 4 3) = [single_cell 3]"
  "node_cells (single_leaf 5 20) = [single_cell 20]"
  by (simp_all add: node_cells_def chidb_Btree_getCell_def cell_of_def eval_defs upt_2
        lax_root_page_def single_leaf_page_def lax_root_def single_leaf_def
        single_cell_def pointer_cell_def)

lemma lax_fields:
  "ntype lax_root = 0x05" "right_page lax_root = 5" "ntype (single_leaf n k) = 0x0D"
  "ckey (single_cell j) = j" "ckey (pointer_cell j p) = j" "child_page (pointer_cell j p) = p"
  by (simp_all add: lax_root_def single_leaf_def single_cell_def pointer_cell_def)

lemma subtree_keys_pos:
  "0 < h \<Longrightarrow> subtree_keys h bt n =
     (case chidb_Btree_getNodeByPage bt n of
        Inl err \<Rightarrow> []
      | Inr nd \<Rightarrow>
          map ckey (node_cells nd)
          @ (if ntype nd = PGTYPE_TABLE_LEAF then []
             else concat (map (\<lambda>c. subtree_keys (h - 1) bt (child_page c)) (node_cells nd))
                  @ subtree_keys (h - 1) bt (right_page nd)))"
  by (cases h) (simp_all split: sum.splits)

lemma key_order_invariants_pos:
  "0 < h \<Longrightarrow> key_order_invariants h bt n =
     (case chidb_Btree_getNodeByPage bt n of
        Inl err \<Rightarrow> False
      | Inr nd \<Rightarrow>
          sorted_wrt (<) (map ckey (node_cells nd))
          \<and> (if ntype nd = PGTYPE_TABLE_LEAF then True
              else
                ntype nd = PGTYPE_TABLE_INTERNAL
                \<and> list_all (\<lambda>c. list_all (\<lambda>k. k \<le> ckey c) (subtree_keys (h - 1) bt (child_page c))
                                \<and> key_order_invariants (h - 1) bt (child_page c))
                     (node_cells nd)
                \<and> (if node_cells nd = [] then True
                    else list_all (\<lambda>k. ckey (last (node_cells nd)) < k)
                           (subtree_keys (h - 1) bt (right_page nd)))
                \<and> key_order_invariants (h - 1) bt (right_page nd)))"
  by (cases h) (simp_all split: sum.splits)

lemma lax_invariants: "key_order_invariants 2 lax_bt 2"
  by (simp add: key_order_invariants_pos subtree_keys_pos lax_nodes lax_cells lax_fields
        format_defs)

lemma lax_tree_cells: "tree_cells 2 lax_bt 2 = [single_cell 3, single_cell 4, single_cell 20]"
  by (simp add: tree_cells_pos lax_nodes lax_cells lax_fields format_defs)

lemma lax_find: "chidb_Btree_find lax_bt 2 4 = Some ((CHIDB_ENOTFOUND, None), lax_bt)"
  by (simp add: chidb_Btree_find.simps find_loop_cells lax_nodes lax_cells lax_fields
        format_defs del: find_loop.simps)

theorem find_misses_key_under_later_cell:
  "key_order_invariants 2 lax_bt 2 \<and>
   map ckey (tree_cells 2 lax_bt 2) = [3, 4, 20] \<and>
   chidb_Btree_find lax_bt 2 4 = Some ((CHIDB_ENOTFOUND, None), lax_bt)"
  by (simp add: lax_invariants lax_tree_cells lax_find lax_fields)


section \<open>The table cursor (C3, C7)\<close>

text \<open>
  The child that cell number \<open>c\<close> of an internal node leads to, as
  \<^verbatim>\<open>chidb_dbm_cursor_table_down\<close> computes it: the child page of cell \<open>c\<close>, the right
  page for \<open>c = n_cells\<close>.
  \<open>subtree_cells bt p L\<close>: page \<open>p\<close> is the root of a tree of internal nodes over
  non-empty table leaves, and \<open>L\<close> lists its leaf cells from left to right.
  \<open>trail_above bt anc rest\<close>: \<open>anc\<close> is a trail of internal nodes, deepest first, and
  \<open>rest\<close> lists the leaf cells under the children to the right of the trail.
  \<open>cursor_at bt ts L\<close>: the trail \<open>ts\<close>, deepest first, ends in a leaf at one of its
  cells, and \<open>L\<close> lists that cell and the leaf cells after it.
\<close>

definition child_at :: "BTreeNode \<Rightarrow> ncell_t \<Rightarrow> npage_t" where
  "child_at nd c =
     (if c < n_cells nd then child_page (cell_of (chidb_Btree_getCell nd c)) else right_page nd)"

inductive subtree_cells :: "BTree \<Rightarrow> npage_t \<Rightarrow> BTreeCell list \<Rightarrow> bool" for bt where
  sub_leaf:
    "chidb_Btree_getNodeByPage bt p = Inr nd \<Longrightarrow> ntype nd = PGTYPE_TABLE_LEAF \<Longrightarrow>
     n_cells nd \<noteq> 0 \<Longrightarrow> subtree_cells bt p (node_cells nd)"
| sub_node:
    "chidb_Btree_getNodeByPage bt p = Inr nd \<Longrightarrow> ntype nd \<noteq> PGTYPE_TABLE_LEAF \<Longrightarrow>
     unat (n_cells nd) < 65535 \<Longrightarrow>
     (\<And>j. j \<le> unat (n_cells nd) \<Longrightarrow> subtree_cells bt (child_at nd (of_nat j)) (Ls j)) \<Longrightarrow>
     subtree_cells bt p (concat (map Ls [0..<Suc (unat (n_cells nd))]))"

inductive trail_above :: "BTree \<Rightarrow> chidb_dbm_trail_node_t list \<Rightarrow> BTreeCell list \<Rightarrow> bool" for bt where
  above_nil: "trail_above bt [] []"
| above_cons:
    "ntype (node t) \<noteq> PGTYPE_TABLE_LEAF \<Longrightarrow> cell_num t \<le> n_cells (node t) \<Longrightarrow>
     unat (n_cells (node t)) < 65535 \<Longrightarrow>
     (\<And>j. unat (cell_num t) < j \<Longrightarrow> j \<le> unat (n_cells (node t)) \<Longrightarrow>
        subtree_cells bt (child_at (node t) (of_nat j)) (Ls j)) \<Longrightarrow>
     trail_above bt anc rest \<Longrightarrow>
     trail_above bt (t # anc)
       (concat (map Ls [Suc (unat (cell_num t))..<Suc (unat (n_cells (node t)))]) @ rest)"

inductive cursor_at :: "BTree \<Rightarrow> chidb_dbm_trail_node_t list \<Rightarrow> BTreeCell list \<Rightarrow> bool" for bt where
  at_leaf:
    "ntype (node t) = PGTYPE_TABLE_LEAF \<Longrightarrow> cell_num t < n_cells (node t) \<Longrightarrow>
     trail_above bt anc rest \<Longrightarrow>
     cursor_at bt (t # anc) (drop (unat (cell_num t)) (node_cells (node t)) @ rest)"

lemma subtree_cells_loaded:
  "subtree_cells bt p L \<Longrightarrow> \<exists>nd. chidb_Btree_getNodeByPage bt p = Inr nd"
  by (erule subtree_cells.cases) auto

lemma upt_Suc_left: "i \<le> n \<Longrightarrow> [i..<Suc n] = i # [Suc i..<Suc n]"
  by (simp add: upt_rec)

lemma concat_upt_left:
  "i \<le> n \<Longrightarrow> concat (map Ls [i..<Suc n]) = Ls i @ concat (map Ls [Suc i..<Suc n])"
  by (simp only: upt_Suc_left list.map concat.simps)

lemma subtree_cells_nonempty: "subtree_cells bt p L \<Longrightarrow> L \<noteq> []"
proof (induction rule: subtree_cells.induct)
  case (sub_leaf p nd)
  have n: "unat (n_cells nd) \<noteq> 0"
    using sub_leaf(3) by (simp add: unat_eq_0)
  show ?case
  proof
    assume "node_cells nd = []"
    then have "length (node_cells nd) = length ([] :: BTreeCell list)"
      by (rule arg_cong)
    then show False using n by simp
  qed
next
  case (sub_node p nd Ls)
  have "Ls 0 \<noteq> []" using sub_node.IH [of 0] by simp
  then show ?case by (simp only: concat_upt_left [OF le0]) simp
qed

lemma getCell_in_range:
  "ncell \<le> n_cells nd \<Longrightarrow> \<exists>c. chidb_Btree_getCell nd ncell = Inr c"
  by (simp add: chidb_Btree_getCell_def Let_def)

lemma table_down_leaf:
  assumes "root_trail cur = rev (t # anc)" and "ntype (node t) = PGTYPE_TABLE_LEAF"
    and "cell_num t < n_cells (node t)"
  shows "chidb_dbm_cursor_table_down bt cur True =
         Some (CHIDB_OK, cur\<lparr>cell := node_cells (node t) ! unat (cell_num t)\<rparr>)"
proof -
  obtain c where c: "chidb_Btree_getCell (node t) (cell_num t) = Inr c"
    using getCell_in_range [of "cell_num t" "node t"] assms(3) by fastforce
  have "node_cells (node t) ! unat (cell_num t) = c"
    using assms(3) c by (simp add: node_cells_nth word_less_nat_alt cell_of_def)
  then show ?thesis
    using assms(1,2) c
    by (subst chidb_dbm_cursor_table_down.simps) (simp add: Let_def)
qed

lemma table_down_step:
  assumes "root_trail cur = rev (t # anc)" and "ntype (node t) \<noteq> PGTYPE_TABLE_LEAF"
    and "chidb_Btree_getNodeByPage bt (child_at (node t) (cell_num t)) = Inr nd'"
  shows "chidb_dbm_cursor_table_down bt cur True =
         chidb_dbm_cursor_table_down bt
           (cur\<lparr>root_trail := rev (\<lparr>node = nd', cell_num = 0\<rparr> # t # anc)\<rparr>) True"
  using assms
  by (subst chidb_dbm_cursor_table_down.simps)
     (simp add: Let_def child_at_def chidb_dbm_trail_node_new_def)


lemma table_down_subtree:
  assumes "subtree_cells bt p L"
  shows "chidb_Btree_getNodeByPage bt p = Inr nd \<Longrightarrow>
         root_trail cur = rev (\<lparr>node = nd, cell_num = 0\<rparr> # anc) \<Longrightarrow>
         trail_above bt anc rest \<Longrightarrow>
         \<exists>ts. chidb_dbm_cursor_table_down bt cur True =
                 Some (CHIDB_OK, cur\<lparr>root_trail := rev ts, cell := hd L\<rparr>)
              \<and> cursor_at bt ts (L @ rest)"
  using assms
proof (induction arbitrary: nd cur anc rest rule: subtree_cells.induct)
  case (sub_leaf p nd0)
  then have nd: "nd = nd0" by simp
  let ?t = "\<lparr>node = nd, cell_num = 0\<rparr>"
  have lt: "cell_num ?t < n_cells (node ?t)"
    using sub_leaf(3) nd by (simp add: word_greater_zero_iff)
  have ne: "node_cells nd \<noteq> []"
    using subtree_cells_nonempty [OF subtree_cells.sub_leaf [OF sub_leaf(1,2,3)]] nd by simp
  have "chidb_dbm_cursor_table_down bt cur True =
        Some (CHIDB_OK, cur\<lparr>cell := node_cells nd ! 0\<rparr>)"
    using table_down_leaf [OF sub_leaf(5) _ lt] sub_leaf(2) nd by simp
  moreover have "cur\<lparr>cell := node_cells nd ! 0\<rparr> =
                 cur\<lparr>root_trail := rev (?t # anc), cell := hd (node_cells nd)\<rparr>"
    using sub_leaf(5) ne by (simp add: hd_conv_nth)
  moreover have "cursor_at bt (?t # anc) (node_cells nd @ rest)"
    using at_leaf [of ?t bt anc rest] lt sub_leaf(2,6) nd by simp
  ultimately show ?case
    using nd by (intro exI [of _ "?t # anc"]) simp
next
  case (sub_node p nd0 Ls)
  then have nd: "nd = nd0" by simp
  let ?t = "\<lparr>node = nd, cell_num = 0\<rparr>"
  let ?n = "unat (n_cells nd)"
  obtain nd' where nd': "chidb_Btree_getNodeByPage bt (child_at nd 0) = Inr nd'"
    using subtree_cells_loaded [OF sub_node(4) [of 0]] nd by auto
  let ?cur' = "cur\<lparr>root_trail := rev (\<lparr>node = nd', cell_num = 0\<rparr> # ?t # anc)\<rparr>"
  let ?rest' = "concat (map Ls [Suc 0..<Suc ?n]) @ rest"
  have step: "chidb_dbm_cursor_table_down bt cur True =
              chidb_dbm_cursor_table_down bt ?cur' True"
    using table_down_step [OF sub_node(7), of bt nd'] sub_node(2) nd nd' by simp
  have above: "trail_above bt (?t # anc) ?rest'"
    using above_cons [of ?t bt Ls anc rest] sub_node(2,3,4,8) nd by simp
  obtain ts where ts: "chidb_dbm_cursor_table_down bt ?cur' True =
        Some (CHIDB_OK, ?cur'\<lparr>root_trail := rev ts, cell := hd (Ls 0)\<rparr>)"
      and at: "cursor_at bt ts (Ls 0 @ ?rest')"
    using sub_node.IH [of 0 nd' ?cur' "?t # anc" ?rest'] nd nd' above by auto
  have "Ls 0 \<noteq> []"
    using subtree_cells_nonempty [OF sub_node(4) [of 0]] by simp
  then have "hd (concat (map Ls [0..<Suc ?n])) = hd (Ls 0)"
    by (simp only: concat_upt_left [OF le0]) simp
  moreover have "concat (map Ls [0..<Suc ?n]) @ rest = Ls 0 @ ?rest'"
    by (simp only: concat_upt_left [OF le0]) simp
  ultimately show ?case
    using step ts at nd by auto
qed


lemma table_down_at:
  assumes t: "ntype (node t) \<noteq> PGTYPE_TABLE_LEAF" "cell_num t \<le> n_cells (node t)"
    and subs: "\<And>j. unat (cell_num t) \<le> j \<Longrightarrow> j \<le> unat (n_cells (node t)) \<Longrightarrow>
                 subtree_cells bt (child_at (node t) (of_nat j)) (Ls j)"
    and n: "unat (n_cells (node t)) < 65535"
    and trail: "root_trail cur = rev (t # anc)"
    and above: "trail_above bt anc rest"
  shows "\<exists>ts. chidb_dbm_cursor_table_down bt cur True =
                Some (CHIDB_OK, cur\<lparr>root_trail := rev ts, cell := hd (Ls (unat (cell_num t)))\<rparr>)
             \<and> cursor_at bt ts
                 (concat (map Ls [unat (cell_num t)..<Suc (unat (n_cells (node t)))]) @ rest)"
proof -
  let ?c = "unat (cell_num t)" and ?n = "unat (n_cells (node t))"
  have cn: "?c \<le> ?n" using t(2) by (simp add: word_le_nat_alt)
  have sub: "subtree_cells bt (child_at (node t) (cell_num t)) (Ls ?c)"
    using subs [of ?c] cn by simp
  obtain nd' where nd': "chidb_Btree_getNodeByPage bt (child_at (node t) (cell_num t)) = Inr nd'"
    using subtree_cells_loaded [OF sub] by auto
  let ?cur' = "cur\<lparr>root_trail := rev (\<lparr>node = nd', cell_num = 0\<rparr> # t # anc)\<rparr>"
  let ?rest' = "concat (map Ls [Suc ?c..<Suc ?n]) @ rest"
  have step: "chidb_dbm_cursor_table_down bt cur True =
              chidb_dbm_cursor_table_down bt ?cur' True"
    by (rule table_down_step [OF trail t(1) nd'])
  have above': "trail_above bt (t # anc) ?rest'"
    using above_cons [of t bt Ls anc rest] t n subs above by simp
  obtain ts where ts: "chidb_dbm_cursor_table_down bt ?cur' True =
        Some (CHIDB_OK, ?cur'\<lparr>root_trail := rev ts, cell := hd (Ls ?c)\<rparr>)"
      and at: "cursor_at bt ts (Ls ?c @ ?rest')"
    using table_down_subtree [OF sub nd', of ?cur' "t # anc" ?rest'] above' by auto
  have "concat (map Ls [?c..<Suc ?n]) @ rest = Ls ?c @ ?rest'"
    by (simp only: concat_upt_left [OF cn]) simp
  then show ?thesis
    using step ts at by (intro exI [of _ ts]) simp
qed

lemma table_up_above:
  assumes "trail_above bt anc rest"
  shows "root_trail cur = rev anc \<Longrightarrow>
         (rest = [] \<longrightarrow> (\<exists>cur'. chidb_dbm_cursor_table_up bt cur True = Some (CHIDB_CANTMOVE, cur')))
         \<and> (rest \<noteq> [] \<longrightarrow>
              (\<exists>ts. chidb_dbm_cursor_table_up bt cur True =
                       Some (CHIDB_OK, cur\<lparr>root_trail := rev ts, cell := hd rest\<rparr>)
                    \<and> cursor_at bt ts rest))"
  using assms
proof (induction arbitrary: cur rule: trail_above.induct)
  case above_nil
  then show ?case
    by (subst chidb_dbm_cursor_table_up.simps) simp
next
  case (above_cons t Ls anc rest)
  let ?c = "unat (cell_num t)" and ?n = "unat (n_cells (node t))"
  let ?t' = "t\<lparr>cell_num := cell_num t + 1\<rparr>"
  let ?cur1 = "cur\<lparr>root_trail := rev (?t' # anc)\<rparr>"
  have cn: "?c \<le> ?n" using above_cons(2) by (simp add: word_le_nat_alt)
  have c1: "unat (cell_num t + 1) = Suc ?c"
    using cn above_cons(3) by (simp add: unat_word_ariths)
  have unfold: "chidb_dbm_cursor_table_up bt cur True =
      (if cell_num t + 1 \<le> n_cells (node t) then chidb_dbm_cursor_table_down bt ?cur1 True
       else chidb_dbm_cursor_table_up bt (cur\<lparr>root_trail := rev anc\<rparr>) True)"
    using above_cons.prems
    by (subst chidb_dbm_cursor_table_up.simps) (simp add: Let_def)
  show ?case
  proof (cases "cell_num t + 1 \<le> n_cells (node t)")
    case True
    then have le: "Suc ?c \<le> ?n" using c1 by (simp add: word_le_nat_alt)
    have "\<exists>ts. chidb_dbm_cursor_table_down bt ?cur1 True =
                Some (CHIDB_OK, ?cur1\<lparr>root_trail := rev ts, cell := hd (Ls (unat (cell_num ?t')))\<rparr>)
             \<and> cursor_at bt ts
                 (concat (map Ls [unat (cell_num ?t')..<Suc (unat (n_cells (node ?t')))]) @ rest)"
      by (rule table_down_at [of ?t' bt Ls ?cur1 anc rest])
         (use above_cons True c1 in simp_all)
    then obtain ts where ts: "chidb_dbm_cursor_table_down bt ?cur1 True =
          Some (CHIDB_OK, cur\<lparr>root_trail := rev ts, cell := hd (Ls (Suc ?c))\<rparr>)"
        and at: "cursor_at bt ts (concat (map Ls [Suc ?c..<Suc ?n]) @ rest)"
      using c1 by auto
    have ne: "Ls (Suc ?c) \<noteq> []"
      using subtree_cells_nonempty [OF above_cons(4) [of "Suc ?c"]] le by simp
    have eq: "concat (map Ls [Suc ?c..<Suc ?n]) = Ls (Suc ?c) @ concat (map Ls [Suc (Suc ?c)..<Suc ?n])"
      by (rule concat_upt_left [OF le])
    have "hd (concat (map Ls [Suc ?c..<Suc ?n]) @ rest) = hd (Ls (Suc ?c))"
      using ne by (simp only: eq) simp
    moreover have "concat (map Ls [Suc ?c..<Suc ?n]) @ rest \<noteq> []"
      using ne by (simp only: eq) simp
    ultimately show ?thesis
      using unfold True ts at by auto
  next
    case False
    then have "\<not> Suc ?c \<le> ?n" using c1 by (simp add: word_le_nat_alt)
    then have emp: "[Suc ?c..<Suc ?n] = []" by simp
    have ih: "(rest = [] \<longrightarrow>
          (\<exists>cur'. chidb_dbm_cursor_table_up bt (cur\<lparr>root_trail := rev anc\<rparr>) True
                   = Some (CHIDB_CANTMOVE, cur')))
       \<and> (rest \<noteq> [] \<longrightarrow>
            (\<exists>ts. chidb_dbm_cursor_table_up bt (cur\<lparr>root_trail := rev anc\<rparr>) True =
                     Some (CHIDB_OK, cur\<lparr>root_trail := rev anc\<rparr>\<lparr>root_trail := rev ts, cell := hd rest\<rparr>)
                  \<and> cursor_at bt ts rest))"
      by (rule above_cons.IH) simp
    show ?thesis
      unfolding emp using unfold False ih by simp
  qed
qed


lemma table_move_at:
  assumes "cursor_at bt ts (c0 # cs)" and trail: "root_trail cur = rev ts"
  shows "(cs = [] \<longrightarrow>
            (\<exists>cur'. chidb_dbm_cursor_table_move bt cur True = Some (CHIDB_CANTMOVE, cur')))
         \<and> (cs \<noteq> [] \<longrightarrow>
              (\<exists>ts'. chidb_dbm_cursor_table_move bt cur True =
                        Some (CHIDB_OK, cur\<lparr>root_trail := rev ts', cell := hd cs\<rparr>)
                     \<and> cursor_at bt ts' cs))"
  using assms(1)
proof (cases rule: cursor_at.cases)
  case (at_leaf t anc rest)
  let ?c = "unat (cell_num t)" and ?n = "unat (n_cells (node t))"
  let ?cells = "node_cells (node t)"
  have cn: "?c < ?n" using at_leaf(4) by (simp add: word_less_nat_alt)
  have split: "drop ?c ?cells = ?cells ! ?c # drop (Suc ?c) ?cells"
    using cn by (simp add: Cons_nth_drop_Suc)
  have cs: "cs = drop (Suc ?c) ?cells @ rest"
    using at_leaf(2) split by simp
  have tr: "root_trail cur = rev anc @ [t]" using trail at_leaf(1) by simp
  have "(int ?c = int ?n - 1) \<longleftrightarrow> Suc ?c = ?n"
    using cn by linarith
  then have up_iff: "(uint (cell_num t) = uint (n_cells (node t)) - 1) \<longleftrightarrow> Suc ?c = ?n"
    by (simp only: uint_nat)
  show ?thesis
  proof (cases "Suc ?c = ?n")
    case True
    then have "drop (Suc ?c) ?cells = []" by simp
    then have cs': "cs = rest" using cs by simp
    have "chidb_dbm_cursor_table_move bt cur True =
          chidb_dbm_cursor_table_up bt (cur\<lparr>root_trail := rev anc\<rparr>) True"
      using tr True by (simp add: chidb_dbm_cursor_table_move_def Let_def up_iff)
    moreover have "(rest = [] \<longrightarrow>
          (\<exists>cur'. chidb_dbm_cursor_table_up bt (cur\<lparr>root_trail := rev anc\<rparr>) True
                   = Some (CHIDB_CANTMOVE, cur')))
       \<and> (rest \<noteq> [] \<longrightarrow>
            (\<exists>ts. chidb_dbm_cursor_table_up bt (cur\<lparr>root_trail := rev anc\<rparr>) True =
                     Some (CHIDB_OK, cur\<lparr>root_trail := rev anc\<rparr>\<lparr>root_trail := rev ts, cell := hd rest\<rparr>)
                  \<and> cursor_at bt ts rest))"
      by (rule table_up_above [OF at_leaf(5)]) simp
    ultimately show ?thesis using cs' by simp
  next
    case False
    then have lt: "Suc ?c < ?n" using cn by simp
    let ?t' = "t\<lparr>cell_num := cell_num t + 1\<rparr>"
    have c1: "unat (cell_num t + 1) = Suc ?c"
      using lt unsigned_less [of "n_cells (node t)", where 'a = nat]
      by (simp add: unat_word_ariths)
    then have lt': "cell_num ?t' < n_cells (node ?t')"
      using lt by (simp add: word_less_nat_alt)
    obtain c where c: "chidb_Btree_getCell (node t) (cell_num t + 1) = Inr c"
      using getCell_in_range [of "cell_num t + 1" "node t"] lt' by fastforce
    have "of_nat (Suc ?c) = cell_num t + 1" by simp
    then have nth: "?cells ! Suc ?c = c"
      using lt c by (simp add: node_cells_nth cell_of_def del: of_nat_Suc)
    have split': "drop (Suc ?c) ?cells = c # drop (Suc (Suc ?c)) ?cells"
      using lt nth by (simp add: Cons_nth_drop_Suc [symmetric])
    have mv: "chidb_dbm_cursor_table_move bt cur True =
          Some (CHIDB_OK, cur\<lparr>root_trail := rev (?t' # anc), cell := c\<rparr>)"
      using tr False c by (simp add: chidb_dbm_cursor_table_move_def Let_def up_iff)
    have "cursor_at bt (?t' # anc) (drop (unat (cell_num ?t')) (node_cells (node ?t')) @ rest)"
      by (rule cursor_at.at_leaf) (use at_leaf lt' in simp_all)
    then have "cursor_at bt (?t' # anc) cs"
      using c1 cs by simp
    moreover have "hd cs = c" "cs \<noteq> []" using cs split' by simp_all
    ultimately show ?thesis
      using mv by (intro conjI impI exI [of _ "?t' # anc"]) simp_all
  qed
qed

lemma rewind_subtree:
  assumes "subtree_cells bt (root_page cur) L"
  shows "\<exists>ts. chidb_dbm_cursor_rewind bt cur =
                 Some (CHIDB_OK, cur\<lparr>root_trail := rev ts, cell := hd L\<rparr>)
             \<and> cursor_at bt ts L"
proof -
  obtain nd where nd: "chidb_Btree_getNodeByPage bt (root_page cur) = Inr nd"
    using subtree_cells_loaded [OF assms] by auto
  let ?cur' = "cur\<lparr>root_trail := [\<lparr>node = nd, cell_num = 0\<rparr>]\<rparr>"
  obtain ts where ts: "chidb_dbm_cursor_table_down bt ?cur' True =
        Some (CHIDB_OK, ?cur'\<lparr>root_trail := rev ts, cell := hd L\<rparr>)"
      and at: "cursor_at bt ts (L @ [])"
    using table_down_subtree [OF assms nd, of ?cur' "[]" "[]"] above_nil by auto
  show ?thesis
    using nd ts at
    by (intro exI [of _ ts])
       (simp add: chidb_dbm_cursor_rewind_def chidb_dbm_trail_node_new_def)
qed


text \<open>
  \<open>cursor_sweep k\<close> makes forward moves, at most \<open>k\<close>, up to the first one that does
  not return \<open>CHIDB_OK\<close>, and returns the cell that each successful move left in
  \<open>cell\<close>, with the status of the move that ended the sweep.
\<close>

fun cursor_sweep :: "nat \<Rightarrow> BTree \<Rightarrow> chidb_dbm_cursor_t \<Rightarrow> (BTreeCell list \<times> status) option" where
  "cursor_sweep 0 bt cur = None"
| "cursor_sweep (Suc k) bt cur =
     (case chidb_dbm_cursor_table_move bt cur True of
        None \<Rightarrow> None
      | Some (st, cur') \<Rightarrow>
          if st = CHIDB_OK then
            (case cursor_sweep k bt cur' of
               None \<Rightarrow> None
             | Some (cs, st') \<Rightarrow> Some (cell cur' # cs, st'))
          else Some ([], st))"

lemma cursor_sweep_at:
  "cursor_at bt ts (c0 # cs) \<Longrightarrow> root_trail cur = rev ts \<Longrightarrow>
   cursor_sweep (Suc (length cs)) bt cur = Some (cs, CHIDB_CANTMOVE)"
proof (induction cs arbitrary: ts cur c0)
  case Nil
  then obtain cur' where "chidb_dbm_cursor_table_move bt cur True = Some (CHIDB_CANTMOVE, cur')"
    using table_move_at [OF Nil(1,2)] by auto
  then show ?case by simp
next
  case (Cons c cs)
  obtain ts' where mv: "chidb_dbm_cursor_table_move bt cur True =
        Some (CHIDB_OK, cur\<lparr>root_trail := rev ts', cell := hd (c # cs)\<rparr>)"
      and at: "cursor_at bt ts' (c # cs)"
    using table_move_at [OF Cons.prems] by auto
  have "cursor_sweep (Suc (length cs)) bt (cur\<lparr>root_trail := rev ts', cell := c\<rparr>) =
        Some (cs, CHIDB_CANTMOVE)"
    by (rule Cons.IH [OF at]) simp
  then show ?case using mv by simp
qed

text \<open>
  \<open>leaves_nonempty h bt p\<close>: every leaf of the tree under page \<open>p\<close> has a cell.
\<close>

fun leaves_nonempty :: "nat \<Rightarrow> BTree \<Rightarrow> npage_t \<Rightarrow> bool" where
  "leaves_nonempty 0 bt p = False"
| "leaves_nonempty (Suc h) bt p =
     (case chidb_Btree_getNodeByPage bt p of
        Inl err \<Rightarrow> False
      | Inr nd \<Rightarrow>
          if ntype nd = PGTYPE_TABLE_LEAF then n_cells nd \<noteq> 0
          else list_all (\<lambda>c. leaves_nonempty h bt (child_page c)) (node_cells nd)
               \<and> leaves_nonempty h bt (right_page nd))"

lemma kids_nth:
  "kids P cs lo hi r \<Longrightarrow> j < length cs \<Longrightarrow> \<exists>lo' hi'. P lo' hi' (child_page (cs ! j))"
proof (induction cs arbitrary: lo j)
  case Nil
  then show ?case by simp
next
  case (Cons c cs)
  then show ?case by (cases j) auto
qed

lemma kids_right: "kids P cs lo hi r \<Longrightarrow> \<exists>lo'. P lo' hi r"
  by (induction cs arbitrary: lo) auto

lemma child_at_cell:
  "j < unat (n_cells nd) \<Longrightarrow> child_at nd (of_nat j) = child_page (node_cells nd ! j)"
proof -
  assume j: "j < unat (n_cells nd)"
  then have "unat (of_nat j :: ncell_t) = j"
    by (metis le_unat_uoi less_imp_le)
  then have "(of_nat j :: ncell_t) < n_cells nd"
    using j by (simp add: word_less_nat_alt)
  then show ?thesis
    using j by (simp add: child_at_def node_cells_nth)
qed

lemma child_at_right: "child_at nd (n_cells nd) = right_page nd"
  by (simp add: child_at_def)

lemma concat_children:
  "concat (map (\<lambda>j. T (child_at nd (of_nat j))) [0..<Suc (unat (n_cells nd))]) =
   concat (map (\<lambda>c. T (child_page c)) (node_cells nd)) @ T (right_page nd)"
proof -
  have "map (\<lambda>j. T (child_at nd (of_nat j))) [0..<unat (n_cells nd)] =
        map (\<lambda>c. T (child_page c)) (node_cells nd)"
    by (rule nth_equalityI) (simp_all add: child_at_cell)
  then show ?thesis
    by (simp add: child_at_right)
qed

lemma table_tree_subtree_cells:
  "table_tree h bt p lo hi \<Longrightarrow> leaves_nonempty h bt p \<Longrightarrow>
   subtree_cells bt p (tree_cells h bt p)"
proof (induction h arbitrary: p lo hi)
  case 0
  then show ?case by simp
next
  case (Suc h)
  from Suc.prems(1) obtain nd where nd: "chidb_Btree_getNodeByPage bt p = Inr nd"
    by (auto split: sum.splits)
  show ?case
  proof (cases "ntype nd = PGTYPE_TABLE_LEAF")
    case True
    then have "n_cells nd \<noteq> 0" using Suc.prems(2) nd by simp
    then show ?thesis
      using sub_leaf [OF nd True] nd True by simp
  next
    case False
    let ?n = "unat (n_cells nd)"
    let ?Ls = "\<lambda>j. tree_cells h bt (child_at nd (of_nat j))"
    have k: "kids (\<lambda>lo hi p. table_tree h bt p lo hi) (node_cells nd) lo hi (right_page nd)"
      and arr: "celloffset_array nd + 2 * ?n \<le> length (data (page nd))"
      using Suc.prems(1) nd False by simp_all
    have le: "list_all (\<lambda>c. leaves_nonempty h bt (child_page c)) (node_cells nd)"
      and lr: "leaves_nonempty h bt (right_page nd)"
      using Suc.prems(2) nd False by simp_all
    have "length (data (page nd)) < 65536"
      using getNodeByPage_length [OF nd] unsigned_less [of "page_size bt", where 'a = nat]
      by simp
    then have n: "?n < 65535" using arr by linarith
    have subs: "subtree_cells bt (child_at nd (of_nat j)) (?Ls j)" if "j \<le> ?n" for j
    proof (cases "j < ?n")
      case True
      then obtain lo' hi' where "table_tree h bt (child_page (node_cells nd ! j)) lo' hi'"
        using kids_nth [OF k, of j] by auto
      moreover have "leaves_nonempty h bt (child_page (node_cells nd ! j))"
        using le True by (simp add: list_all_length)
      ultimately show ?thesis
        using Suc.IH True by (simp add: child_at_cell)
    next
      case False
      then have j: "j = ?n" using that by simp
      obtain lo' where "table_tree h bt (right_page nd) lo' hi"
        using kids_right [OF k] by auto
      then show ?thesis
        using Suc.IH lr j by (simp add: child_at_right)
    qed
    have "subtree_cells bt p (concat (map ?Ls [0..<Suc ?n]))"
      using subtree_cells.sub_node [OF nd False n, of ?Ls] subs by blast
    then show ?thesis
      using nd False by (simp only: concat_children) simp
  qed
qed


abbreviation key_order :: "BTreeCell list \<Rightarrow> bool" where
  "key_order \<equiv> sorted_wrt (\<lambda>a b. ckey a < ckey b)"

lemma leaf_keys_sorted: "leaf_keys cs lo hi \<Longrightarrow> key_order cs"
proof (induction cs arbitrary: lo)
  case Nil
  then show ?case by simp
next
  case (Cons c cs)
  have "\<And>x. x \<in> set cs \<Longrightarrow> ckey c < ckey x"
    using leaf_keys_range [of cs "uint (ckey c)" hi] Cons.prems by (simp add: word_less_def)
  then show ?case
    using Cons.IH [of "uint (ckey c)"] Cons.prems by simp
qed

lemma kids_sorted:
  "kids (\<lambda>lo hi p. key_order (T p) \<and> in_range T lo hi p) cs lo hi r \<Longrightarrow>
   key_order (concat (map (\<lambda>c. T (child_page c)) cs) @ T r)"
proof (induction cs arbitrary: lo)
  case Nil
  then show ?case by simp
next
  case (Cons c cs)
  let ?rest = "concat (map (\<lambda>c. T (child_page c)) cs) @ T r"
  have k: "kids (in_range T) cs (uint (ckey c)) hi r"
    by (rule kids_mono [of "\<lambda>lo hi p. key_order (T p) \<and> in_range T lo hi p"]) (use Cons.prems in simp_all)
  have "ckey x < ckey y" if "x \<in> set (T (child_page c))" "y \<in> set ?rest" for x y
  proof -
    have "uint (ckey x) \<le> uint (ckey c)"
      using that(1) Cons.prems by (auto simp: in_range_def)
    moreover have "uint (ckey c) < uint (ckey y)"
      using kids_range [OF k that(2)] by simp
    ultimately show ?thesis by (simp add: word_less_def)
  qed
  moreover have "key_order ?rest"
    using Cons.IH [of "uint (ckey c)"] Cons.prems by simp
  moreover have "key_order (T (child_page c))"
    using Cons.prems by simp
  ultimately show ?case
    by (simp add: sorted_wrt_append)
qed

lemma table_tree_sorted: "table_tree h bt p lo hi \<Longrightarrow> key_order (tree_cells h bt p)"
proof (induction h arbitrary: p lo hi)
  case 0
  then show ?case by simp
next
  case (Suc h)
  from Suc.prems obtain nd where nd: "chidb_Btree_getNodeByPage bt p = Inr nd"
    by (auto split: sum.splits)
  show ?case
  proof (cases "ntype nd = PGTYPE_TABLE_LEAF")
    case True
    then show ?thesis
      using Suc.prems nd leaf_keys_sorted [of "node_cells nd" lo hi] by simp
  next
    case False
    then have k: "kids (\<lambda>lo hi p. table_tree h bt p lo hi) (node_cells nd) lo hi (right_page nd)"
      using Suc.prems nd by simp
    have "kids (\<lambda>lo hi p. key_order (tree_cells h bt p) \<and> in_range (tree_cells h bt) lo hi p)
            (node_cells nd) lo hi (right_page nd)"
      by (rule kids_mono [OF _ k]) (simp add: Suc.IH table_tree_in_range)
    then show ?thesis
      using nd False kids_sorted [of "tree_cells h bt" "node_cells nd" lo hi "right_page nd"]
      by simp
  qed
qed

text \<open>
  On a search tree with a cell in every leaf the rewind and the forward moves visit
  the leaf cells, each once, by ascending key, and the move after the last cell
  returns \<open>CHIDB_CANTMOVE\<close>.
\<close>

lemma cursor_sweep_search_tree:
  assumes t: "table_tree h bt (root_page cur) lo hi"
    and ne: "leaves_nonempty h bt (root_page cur)"
  shows "\<exists>cur' cs. chidb_dbm_cursor_rewind bt cur = Some (CHIDB_OK, cur')
           \<and> cursor_sweep (length (tree_cells h bt (root_page cur))) bt cur' = Some (cs, CHIDB_CANTMOVE)
           \<and> cell cur' # cs = tree_cells h bt (root_page cur)
           \<and> key_order (tree_cells h bt (root_page cur))"
proof -
  let ?L = "tree_cells h bt (root_page cur)"
  have sub: "subtree_cells bt (root_page cur) ?L"
    by (rule table_tree_subtree_cells [OF t ne])
  then have L: "?L \<noteq> []" by (rule subtree_cells_nonempty)
  obtain ts where rw: "chidb_dbm_cursor_rewind bt cur =
        Some (CHIDB_OK, cur\<lparr>root_trail := rev ts, cell := hd ?L\<rparr>)"
      and at: "cursor_at bt ts ?L"
    using rewind_subtree [OF sub] by auto
  let ?cur = "cur\<lparr>root_trail := rev ts, cell := hd ?L\<rparr>"
  have at': "cursor_at bt ts (hd ?L # tl ?L)" using at L by simp
  have "cursor_sweep (Suc (length (tl ?L))) bt ?cur = Some (tl ?L, CHIDB_CANTMOVE)"
    by (rule cursor_sweep_at [OF at']) simp
  moreover have "Suc (length (tl ?L)) = length ?L" using L by simp
  ultimately have sw: "cursor_sweep (length ?L) bt ?cur = Some (tl ?L, CHIDB_CANTMOVE)"
    by (simp only:)
  show ?thesis
    using rw sw L table_tree_sorted [OF t]
    by (intro exI [of _ ?cur] exI [of _ "tl ?L"]) simp
qed

subsection \<open>The rewind\<close>

text \<open>
  The trail from page \<open>p\<close> down to the leftmost leaf: at an internal node, the
  child of cell 0. \<open>reaches_leaf h bt p\<close>: that descent goes through pages that can be
  read and comes to a table leaf within \<open>h\<close> nodes.
\<close>

fun leftmost :: "nat \<Rightarrow> BTree \<Rightarrow> npage_t \<Rightarrow> chidb_dbm_trail_node_t list" where
  "leftmost 0 bt p = []"
| "leftmost (Suc h) bt p =
     (case chidb_Btree_getNodeByPage bt p of
        Inl err \<Rightarrow> []
      | Inr nd \<Rightarrow>
          \<lparr>node = nd, cell_num = 0\<rparr> #
          (if ntype nd = PGTYPE_TABLE_LEAF then [] else leftmost h bt (child_at nd 0)))"

fun reaches_leaf :: "nat \<Rightarrow> BTree \<Rightarrow> npage_t \<Rightarrow> bool" where
  "reaches_leaf 0 bt p = False"
| "reaches_leaf (Suc h) bt p =
     (case chidb_Btree_getNodeByPage bt p of
        Inl err \<Rightarrow> False
      | Inr nd \<Rightarrow>
          if ntype nd = PGTYPE_TABLE_LEAF then True else reaches_leaf h bt (child_at nd 0))"

lemma reaches_leaf_loaded:
  "reaches_leaf h bt p \<Longrightarrow> \<exists>nd. chidb_Btree_getNodeByPage bt p = Inr nd"
  by (cases h) (auto split: sum.splits)

lemma leftmost_nonempty: "reaches_leaf h bt p \<Longrightarrow> leftmost h bt p \<noteq> []"
  by (cases h) (auto split: sum.splits)

lemma table_down_leftmost:
  "reaches_leaf h bt p \<Longrightarrow> chidb_Btree_getNodeByPage bt p = Inr nd \<Longrightarrow>
   root_trail cur = pre @ [\<lparr>node = nd, cell_num = 0\<rparr>] \<Longrightarrow>
   chidb_dbm_cursor_table_down bt cur True =
     Some (CHIDB_OK, cur\<lparr>root_trail := pre @ leftmost h bt p,
              cell := cell_of (chidb_Btree_getCell (node (last (leftmost h bt p))) 0)\<rparr>)"
proof (induction h arbitrary: p nd cur pre)
  case 0
  then show ?case by simp
next
  case (Suc h)
  show ?case
  proof (cases "ntype nd = PGTYPE_TABLE_LEAF")
    case True
    obtain c where c: "chidb_Btree_getCell nd 0 = Inr c"
      using getCell_in_range [of 0 nd] by auto
    show ?thesis
      using True Suc.prems(2,3) c
      by (subst chidb_dbm_cursor_table_down.simps) (simp add: Let_def cell_of_def)
  next
    case False
    have t: "reaches_leaf h bt (child_at nd 0)"
      using Suc.prems(1,2) False by simp
    then obtain nd' where nd': "chidb_Btree_getNodeByPage bt (child_at nd 0) = Inr nd'"
      using reaches_leaf_loaded by blast
    have ne: "leftmost h bt (child_at nd 0) \<noteq> []"
      by (rule leftmost_nonempty [OF t])
    let ?cur = "cur\<lparr>root_trail := (pre @ [\<lparr>node = nd, cell_num = 0\<rparr>]) @ [\<lparr>node = nd', cell_num = 0\<rparr>]\<rparr>"
    have ih: "chidb_dbm_cursor_table_down bt ?cur True =
        Some (CHIDB_OK, ?cur\<lparr>root_trail := (pre @ [\<lparr>node = nd, cell_num = 0\<rparr>]) @ leftmost h bt (child_at nd 0),
                cell := cell_of (chidb_Btree_getCell (node (last (leftmost h bt (child_at nd 0)))) 0)\<rparr>)"
      by (rule Suc.IH [OF t nd']) simp
    have step: "chidb_dbm_cursor_table_down bt cur True = chidb_dbm_cursor_table_down bt ?cur True"
      using table_down_step [of cur "\<lparr>node = nd, cell_num = 0\<rparr>" "rev pre" bt nd'] Suc.prems(3) False nd'
      by simp
    show ?thesis
      using False Suc.prems(2) ne ih
      by (simp add: step)
  qed
qed

lemma leftmost_last_leaf:
  "reaches_leaf h bt p \<Longrightarrow> ntype (node (last (leftmost h bt p))) = PGTYPE_TABLE_LEAF"
proof (induction h arbitrary: p)
  case 0
  then show ?case by simp
next
  case (Suc h)
  from Suc.prems obtain nd where nd: "chidb_Btree_getNodeByPage bt p = Inr nd"
    using reaches_leaf_loaded by blast
  show ?case
  proof (cases "ntype nd = PGTYPE_TABLE_LEAF")
    case True
    then show ?thesis using nd by simp
  next
    case False
    have t: "reaches_leaf h bt (child_at nd 0)"
      using Suc.prems nd False by simp
    show ?thesis
      using nd False Suc.IH [OF t] leftmost_nonempty [OF t] by simp
  qed
qed

lemma rewind_leftmost:
  assumes "reaches_leaf h bt (root_page cur)"
  shows "chidb_dbm_cursor_rewind bt cur =
     Some (CHIDB_OK, cur\<lparr>root_trail := leftmost h bt (root_page cur),
              cell := cell_of (chidb_Btree_getCell (node (last (leftmost h bt (root_page cur)))) 0)\<rparr>)"
proof -
  from assms obtain nd where nd: "chidb_Btree_getNodeByPage bt (root_page cur) = Inr nd"
    using reaches_leaf_loaded by blast
  have "chidb_dbm_cursor_table_down bt (cur\<lparr>root_trail := [\<lparr>node = nd, cell_num = 0\<rparr>]\<rparr>) True =
     Some (CHIDB_OK, cur\<lparr>root_trail := [\<lparr>node = nd, cell_num = 0\<rparr>]\<rparr>
             \<lparr>root_trail := [] @ leftmost h bt (root_page cur),
              cell := cell_of (chidb_Btree_getCell (node (last (leftmost h bt (root_page cur)))) 0)\<rparr>)"
    by (rule table_down_leftmost [OF assms nd]) simp
  then show ?thesis
    using nd by (simp add: chidb_dbm_cursor_rewind_def chidb_dbm_trail_node_new_def)
qed

lemma rewind_status:
  "chidb_dbm_cursor_rewind bt cur = Some (st, c) \<Longrightarrow> st = CHIDB_OK"
  by (auto simp: chidb_dbm_cursor_rewind_def split: sum.splits option.splits)

lemma leftmost_pos:
  "0 < h \<Longrightarrow> leftmost h bt p =
     (case chidb_Btree_getNodeByPage bt p of
        Inl err \<Rightarrow> []
      | Inr nd \<Rightarrow>
          \<lparr>node = nd, cell_num = 0\<rparr> #
          (if ntype nd = PGTYPE_TABLE_LEAF then [] else leftmost (h - 1) bt (child_at nd 0)))"
  by (cases h) (simp_all split: sum.splits)

lemma reaches_leaf_pos:
  "0 < h \<Longrightarrow> reaches_leaf h bt p =
     (case chidb_Btree_getNodeByPage bt p of
        Inl err \<Rightarrow> False
      | Inr nd \<Rightarrow>
          if ntype nd = PGTYPE_TABLE_LEAF then True else reaches_leaf (h - 1) bt (child_at nd 0))"
  by (cases h) (simp_all split: sum.splits)


subsection \<open>Cursors on example files\<close>

definition start_cursor :: "npage_t \<Rightarrow> chidb_dbm_cursor_t" where
  "start_cursor root = \<lparr>cursor_type = CURSOR_READ, root_page = root, root_trail = [], cell = zero_cell\<rparr>"

lemma example_getCell:
  "chidb_Btree_getCell example_node2 0 = Inr example_cell_root"
  "chidb_Btree_getCell example_node3 0 = Inr example_cell7"
  "chidb_Btree_getCell example_node4 0 = Inr example_cell3"
  "chidb_Btree_getCell example_node4 1 = Inr example_cell5"
  by (simp_all add: chidb_Btree_getCell_def eval_defs
        example_page2_def example_page3_def example_page4_def
        example_node2_def example_node3_def example_node4_def
        example_cell3_def example_cell5_def example_cell7_def example_cell_root_def)

lemma example_reaches_leaf: "reaches_leaf 2 example_bt 2"
  by (simp add: reaches_leaf_pos example_nodes example_fields format_defs child_at_def
        example_getCell cell_of_def example_cell_root_def)

lemma example_leftmost:
  "leftmost 2 example_bt 2 =
     [\<lparr>node = example_node2, cell_num = 0\<rparr>, \<lparr>node = example_node4, cell_num = 0\<rparr>]"
  by (simp add: leftmost_pos example_nodes example_fields format_defs child_at_def
        example_getCell cell_of_def example_cell_root_def)


text \<open>
  A table whose root, page 2, is a leaf without cells: the rewind returns
  \<open>CHIDB_OK\<close>.
\<close>

definition empty_bt :: BTree where
  "empty_bt =
     \<lparr>page_size = 1024, n_pages = 2,
      pages = (\<lambda>_. [])(1 := canonical_header @ [0x0D, 0, 108, 0, 0, 0x04, 0, 0] @ replicate 916 0,
                        2 := empty_leaf_page)\<rparr>"

lemma empty_nodes:
  "chidb_Btree_getNodeByPage empty_bt 2 = Inr (empty_node 2)"
  by (simp_all add: eval_defs empty_bt_def empty_leaf_page_def empty_node_def)

definition stale_cell :: BTreeCell where
  "stale_cell = \<lparr>ctype = 0x0D, ckey = 65536, child_page = 0, data_size = 27264000,
     cdata = replicate 1016 0, keyPk = 0\<rparr>"

lemma empty_fields:
  "ntype (empty_node n) = 0x0D" "n_cells (empty_node n) = 0"
  "celloffset_array (empty_node n) = 8" "length (data (page (empty_node n))) = 1024"
  by (simp_all add: empty_node_def empty_leaf_page_def)

lemma empty_cells:
  "node_cells (empty_node n) = []"
  "chidb_Btree_getCell (empty_node n) 0 = Inr stale_cell"
  "chidb_Btree_getCell (empty_node n) 1 = Inl CHIDB_ECELLNO"
  by (simp_all add: node_cells_def chidb_Btree_getCell_def eval_defs empty_node_def
        empty_leaf_page_def stale_cell_def)

lemma empty_rewind:
  "chidb_dbm_cursor_rewind empty_bt (start_cursor 2) =
     Some (CHIDB_OK, (start_cursor 2)\<lparr>root_trail := [\<lparr>node = empty_node 2, cell_num = 0\<rparr>], cell := stale_cell\<rparr>)"
  by (simp add: chidb_dbm_cursor_rewind_def chidb_dbm_trail_node_new_def start_cursor_def
        chidb_dbm_cursor_table_down.simps empty_nodes empty_fields empty_cells
        cell_of_def format_defs)


lemma cursor_sweep_pos:
  "0 < k \<Longrightarrow> cursor_sweep k bt cur =
     (case chidb_dbm_cursor_table_move bt cur True of
        None \<Rightarrow> None
      | Some (st, cur') \<Rightarrow>
          if st = CHIDB_OK then
            (case cursor_sweep (k - 1) bt cur' of
               None \<Rightarrow> None
             | Some (cs, st') \<Rightarrow> Some (cell cur' # cs, st'))
          else Some ([], st))"
  by (cases k) (simp_all split: option.splits)


section \<open>Inserting a duplicate key (C2)\<close>

text \<open>
  The scans of \<^verbatim>\<open>chidb_Btree_insertNonFull\<close> over the cells of a node, as a function
  of the list of cells.
\<close>

fun scan_cells :: "chidb_key_t \<Rightarrow> nat \<Rightarrow> BTreeCell \<Rightarrow> BTreeCell list \<Rightarrow> scan" where
  "scan_cells key i sc [] = Stop i False sc"
| "scan_cells key i sc (c # cs) =
     (if key < ckey c then Stop i True c
      else if ckey c = key then Dup
      else scan_cells key (Suc i) c cs)"

lemma leaf_scan_cells:
  "i \<le> unat (n_cells nd) \<Longrightarrow>
   leaf_scan nd key i sc = scan_cells key i sc (drop i (node_cells nd))"
proof (induction nd key i sc rule: leaf_scan.induct)
  case (1 nd key i sc)
  show ?case
  proof (cases "i < unat (n_cells nd)")
    case True
    then have d: "drop i (node_cells nd) =
        cell_of (chidb_Btree_getCell nd (of_nat i)) # drop (Suc i) (node_cells nd)"
      by (simp add: Cons_nth_drop_Suc [symmetric] node_cells_nth)
    show ?thesis
      using True "1.IH" [OF True refl]
      by (subst leaf_scan.simps) (simp add: d Let_def)
  next
    case False
    then show ?thesis
      using "1.prems" by (subst leaf_scan.simps) simp
  qed
qed

lemma internal_scan_cells:
  "i \<le> unat (n_cells nd) \<Longrightarrow>
   internal_scan nd key i sc = scan_cells key i sc (drop i (node_cells nd))"
proof (induction nd key i sc rule: internal_scan.induct)
  case (1 nd key i sc)
  show ?case
  proof (cases "i < unat (n_cells nd)")
    case True
    then have d: "drop i (node_cells nd) =
        cell_of (chidb_Btree_getCell nd (of_nat i)) # drop (Suc i) (node_cells nd)"
      by (simp add: Cons_nth_drop_Suc [symmetric] node_cells_nth)
    show ?thesis
      using True "1.IH" [OF True refl]
      by (subst internal_scan.simps) (simp add: d Let_def)
  next
    case False
    then show ?thesis
      using "1.prems" by (subst internal_scan.simps) simp
  qed
qed

lemma scan_cells_found:
  "find_cells PGTYPE_TABLE_LEAF r key cs = Return CHIDB_OK out \<Longrightarrow> scan_cells key i sc cs = Dup"
proof (induction cs arbitrary: i sc)
  case Nil
  then show ?case by simp
next
  case (Cons c cs)
  show ?case
  proof (cases "ckey c = key")
    case True
    then show ?thesis by simp
  next
    case False
    then have nle: "\<not> key \<le> ckey c"
      using Cons.prems by (auto split: if_splits)
    then have "\<not> key < ckey c" by auto
    moreover have "find_cells PGTYPE_TABLE_LEAF r key cs = Return CHIDB_OK out"
      using Cons.prems False nle by simp
    ultimately show ?thesis
      using False Cons.IH by simp
  qed
qed

lemma scan_cells_descend:
  "scan_cells key i sc cs = Dup \<or>
   (\<exists>j found c. scan_cells key i sc cs = Stop j found c
      \<and> (if \<not> found then r else child_page c) = descend_cells r key cs)"
proof (induction cs arbitrary: i sc)
  case Nil
  have "scan_cells key i sc [] = Stop i False sc
      \<and> (if \<not> False then r else child_page sc) = descend_cells r key []"
    by simp
  then show ?case by blast
next
  case (Cons c cs)
  show ?case
  proof (cases "key < ckey c")
    case True
    then have "key \<le> ckey c" by (rule less_imp_le)
    then have "scan_cells key i sc (c # cs) = Stop i True c
        \<and> (if \<not> True then r else child_page c) = descend_cells r key (c # cs)"
      using True by simp
    then show ?thesis by blast
  next
    case False
    show ?thesis
    proof (cases "ckey c = key")
      case True
      then show ?thesis by simp
    next
      case neq: False
      have "\<not> key \<le> ckey c" using False neq by auto
      then have "scan_cells key i sc (c # cs) = scan_cells key (Suc i) c cs"
        and "descend_cells r key (c # cs) = descend_cells r key cs"
        using False neq by simp_all
      then show ?thesis
        using Cons.IH [of "Suc i" c] by (simp only:)
    qed
  qed
qed

text \<open>
  \<open>table_path_has_room h bt n btc\<close>: the node at page \<open>n\<close> and the nodes below it on
  the way that \<^verbatim>\<open>chidb_Btree_find\<close> takes for the key of \<open>btc\<close> are table nodes, at
  most \<open>h\<close> of them down to a leaf, and each can take the cell, as \<^verbatim>\<open>would_overflow\<close>
  sees it.
\<close>

fun table_path_has_room :: "nat \<Rightarrow> BTree \<Rightarrow> npage_t \<Rightarrow> BTreeCell \<Rightarrow> bool" where
  "table_path_has_room 0 bt n btc = False"
| "table_path_has_room (Suc h) bt n btc =
     (case chidb_Btree_getNodeByPage bt n of
        Inl err \<Rightarrow> False
      | Inr nd \<Rightarrow>
          \<not> would_overflow nd btc
          \<and> (if ntype nd = PGTYPE_TABLE_LEAF then True
              else ntype nd = PGTYPE_TABLE_INTERNAL
                   \<and> table_path_has_room h bt
                        (descend_cells (right_page nd) (ckey btc) (node_cells nd)) btc))"

lemma table_path_loaded:
  "table_path_has_room h bt n btc \<Longrightarrow>
   \<exists>nd. chidb_Btree_getNodeByPage bt n = Inr nd \<and> \<not> would_overflow nd btc"
  by (cases h) (auto split: sum.splits)

lemma find_cells_leaf_returns:
  "\<exists>st res. find_cells PGTYPE_TABLE_LEAF r key cs = Return st res"
  by (induction cs) auto

lemma find_step:
  "chidb_Btree_getNodeByPage bt n = Inr nd \<Longrightarrow>
   chidb_Btree_find bt n key =
     (case find_cells (ntype nd) (right_page nd) key (node_cells nd) of
        Return st out \<Rightarrow> Some ((st, out), bt)
      | Descend pg \<Rightarrow> chidb_Btree_find bt pg key)"
  by (subst chidb_Btree_find.simps) (simp add: find_loop_cells del: find_loop.simps)

lemma insertNonFull_duplicate:
  "chidb_Btree_find bt n (ckey btc) = Some ((CHIDB_OK, out), bt') \<Longrightarrow>
   table_path_has_room h bt n btc \<Longrightarrow>
   chidb_Btree_insertNonFull bt n btc = Some (CHIDB_EDUPLICATE, bt)"
proof (induction h arbitrary: n)
  case 0
  then show ?case by simp
next
  case (Suc h)
  from Suc.prems(2) obtain nd where nd: "chidb_Btree_getNodeByPage bt n = Inr nd"
    using table_path_loaded by blast
  note f = Suc.prems(1) [unfolded find_step [OF nd]]
  show ?case
  proof (cases "ntype nd = PGTYPE_TABLE_LEAF")
    case True
    obtain st res where
      "find_cells PGTYPE_TABLE_LEAF (right_page nd) (ckey btc) (node_cells nd) = Return st res"
      using find_cells_leaf_returns by blast
    then have "find_cells PGTYPE_TABLE_LEAF (right_page nd) (ckey btc) (node_cells nd)
        = Return CHIDB_OK out"
      using f True by simp
    then have "leaf_scan nd (ckey btc) 0 zero_cell = Dup"
      using scan_cells_found by (simp add: leaf_scan_cells)
    then show ?thesis
      using nd True by (subst chidb_Btree_insertNonFull.simps) simp
  next
    case False
    have ty: "ntype nd = PGTYPE_TABLE_INTERNAL"
      using Suc.prems(2) nd False by simp
    then have notleaf: "\<not> (ntype nd = PGTYPE_TABLE_LEAF \<or> ntype nd = PGTYPE_INDEX_LEAF)"
      by (simp add: format_defs)
    let ?child = "descend_cells (right_page nd) (ckey btc) (node_cells nd)"
    have fc: "chidb_Btree_find bt ?child (ckey btc) = Some ((CHIDB_OK, out), bt')"
      using f False by (simp add: find_cells_internal)
    have room: "table_path_has_room h bt ?child btc"
      using Suc.prems(2) nd False by simp
    then obtain cnd where cnd: "chidb_Btree_getNodeByPage bt ?child = Inr cnd"
      and noov: "\<not> would_overflow cnd btc"
      using table_path_loaded by blast
    have scan: "internal_scan nd (ckey btc) 0 zero_cell
        = scan_cells (ckey btc) 0 zero_cell (node_cells nd)"
      by (simp add: internal_scan_cells)
    from scan_cells_descend [of "ckey btc" 0 zero_cell "node_cells nd" "right_page nd"]
    show ?thesis
    proof
      assume "scan_cells (ckey btc) 0 zero_cell (node_cells nd) = Dup"
      then show ?thesis
        using nd notleaf scan by (subst chidb_Btree_insertNonFull.simps) simp
    next
      assume "\<exists>j found c. scan_cells (ckey btc) 0 zero_cell (node_cells nd) = Stop j found c
          \<and> (if \<not> found then right_page nd else child_page c) = ?child"
      then obtain j found c where
        st: "scan_cells (ckey btc) 0 zero_cell (node_cells nd) = Stop j found c"
        and ch: "(if \<not> found then right_page nd else child_page c) = ?child"
        by blast
      have "chidb_Btree_insertNonFull bt ?child btc = Some (CHIDB_EDUPLICATE, bt)"
        by (rule Suc.IH [OF fc room])
      then show ?thesis
        using nd notleaf scan st ch cnd noov
        by (subst chidb_Btree_insertNonFull.simps) (simp add: Let_def)
    qed
  qed
qed




lemma example_find7:
  "chidb_Btree_find example_bt 2 7 = Some ((CHIDB_OK, Some ([0xDD, 0xEE, 0xFF], 3)), example_bt)"
  by (simp add: chidb_Btree_find.simps find_loop_cells example_nodes example_cells
        example_fields format_defs example_cell7_def example_cell_root_def
        del: find_loop.simps)

lemma table_path_has_room_pos:
  "0 < h \<Longrightarrow> table_path_has_room h bt n btc =
     (case chidb_Btree_getNodeByPage bt n of
        Inl err \<Rightarrow> False
      | Inr nd \<Rightarrow>
          \<not> would_overflow nd btc
          \<and> (if ntype nd = PGTYPE_TABLE_LEAF then True
              else ntype nd = PGTYPE_TABLE_INTERNAL
                   \<and> table_path_has_room (h - 1) bt
                        (descend_cells (right_page nd) (ckey btc) (node_cells nd)) btc))"
  by (cases h) (simp_all split: sum.splits)

lemma example_space:
  "cells_offset example_node2 = 1016" "free_offset example_node2 = 14"
  "cells_offset example_node3 = 1013" "free_offset example_node3 = 10"
  by (simp_all add: example_node2_def example_node3_def)

lemma example_room: "table_path_has_room 2 example_bt 2 (table_cell 7 [0x01] 1)"
  by (simp add: table_path_has_room_pos example_nodes example_cells example_fields
        example_space would_overflow_def table_cell_def format_defs example_cell_root_def)


subsection \<open>A duplicate insert into a full root\<close>

text \<open>
  A table of 1024-byte pages whose root, page 2, is a leaf with one cell: key 5 with
  600 bytes of payload. It is the file that the insert of that entry into the empty
  table leaves. A second cell of 608 bytes does not fit the 406 free bytes of the page.
\<close>

definition one_cell_page :: "byte list" where
  "one_cell_page =
     [0x0D, 0x00, 0x0A, 0x00, 0x01, 0x01, 0xA0, 0x00, 0x01, 0xA0] @ replicate 406 0
     @ [0x80, 0x80, 0x84, 0x58, 0x80, 0x80, 0x80, 0x05] @ replicate 600 9"

definition full_bt :: BTree where
  "full_bt =
     \<lparr>page_size = 1024, n_pages = 2,
      pages = (\<lambda>_. [])(1 := canonical_header @ [0x0D, 0, 108, 0, 0, 0x04, 0, 0] @ replicate 916 0,
                        2 := one_cell_page)\<rparr>"

definition full_node :: BTreeNode where
  "full_node = \<lparr>page = \<lparr>npage = 2, data = one_cell_page\<rparr>, ntype = 0x0D, free_offset = 10,
     n_cells = 1, cells_offset = 416, right_page = 0, celloffset_array = 8\<rparr>"

lemma full_root: "chidb_Btree_getNodeByPage full_bt 2 = Inr full_node"
  by (simp add: eval_defs full_bt_def one_cell_page_def full_node_def)

definition big_cell :: BTreeCell where
  "big_cell = \<lparr>ctype = 0x0D, ckey = 5, child_page = 0, data_size = 600,
     cdata = replicate 600 9, keyPk = 0\<rparr>"

lemma full_cells: "node_cells full_node = [big_cell]"
  by (simp add: node_cells_def chidb_Btree_getCell_def cell_of_def eval_defs full_node_def
        one_cell_page_def big_cell_def)

lemma full_fields: "ntype full_node = 0x0D" "right_page full_node = 0"
  by (simp_all add: full_node_def)

lemma full_find:
  "chidb_Btree_find full_bt 2 5 = Some ((CHIDB_OK, Some (replicate 600 9, 600)), full_bt)"
  by (simp add: chidb_Btree_find.simps find_loop_cells full_root full_cells full_fields
        format_defs big_cell_def del: find_loop.simps)

text \<open>Unfolding the insertion on a concrete file.\<close>

lemmas insert_defs = chidb_Btree_insertInTable_def chidb_Btree_insert_def table_cell_def
  would_overflow_def root_overflow_def root_reinit_def chidb_Btree_newNode_def
  chidb_Pager_allocatePage_def chidb_Btree_initEmptyNode_def chidb_Pager_writePage_def
  chidb_Pager_releaseMemPage_def chidb_Btree_getCell_def chidb_Btree_insertCell_def
  cell_length_def serialize_cell_def memcpy_from_def store_bytes_def memmove_def
  bytes2_def bytes4_def varint4_def put2byte_def put4byte_def
  chidb_Btree_writeNode_def chidb_Btree_split_def split_median_def split_rebuild_def
  split_refill_def split_finish_def split_write_def promote_def cell_of_def put_bytes_nat
  copy_cells.simps chidb_Btree_insertNonFull.simps internal_scan.simps leaf_scan.simps

lemma fun_upd_same: "x = y \<Longrightarrow> f(k := x) = f(k := y)"
  by simp

lemma first_insert:
  "chidb_Btree_insertInTable empty_bt 2 5 (replicate 600 9) 600 = Some (CHIDB_OK, full_bt)"
  apply (simp add: insert_defs eval_defs empty_bt_def empty_leaf_page_def full_bt_def)
  apply (rule fun_upd_same)
  apply (rule list_eq_byte_at)
   apply (simp add: one_cell_page_def)
  apply (simp add: byte_at_simps one_cell_page_def)
  apply arith
  done


definition split_root_page :: "byte list" where
  "split_root_page =
     [0x05, 0x00, 0x0E, 0x00, 0x01, 0x03, 0xF8, 0x00, 0x00, 0x00, 0x00, 0x03, 0x03, 0xF8]
     @ replicate 402 0
     @ [0x80, 0x80, 0x84, 0x58, 0x80, 0x80, 0x80, 0x05] @ replicate 592 9
     @ [0x00, 0x00, 0x00, 0x04, 0x80, 0x80, 0x80, 0x05]"

definition stale_empty_page :: "byte list" where
  "stale_empty_page =
     [0x0D, 0x00, 0x08, 0x00, 0x00, 0x04, 0x00, 0x00, 0x01, 0xA0] @ replicate 406 0
     @ [0x80, 0x80, 0x84, 0x58, 0x80, 0x80, 0x80, 0x05] @ replicate 600 9"

definition split_bt :: BTree where
  "split_bt =
     \<lparr>page_size = 1024, n_pages = 4,
      pages = (\<lambda>_. [])(1 := canonical_header @ [0x0D, 0, 108, 0, 0, 0x04, 0, 0] @ replicate 916 0,
                        2 := split_root_page, 3 := stale_empty_page, 4 := one_cell_page,
                        5 := empty_leaf_page)\<rparr>"

lemma duplicate_insert_state:
  "chidb_Btree_insertInTable full_bt 2 5 (replicate 600 9) 600 = Some (CHIDB_EDUPLICATE, split_bt)"
  apply (simp add: insert_defs eval_defs full_bt_def one_cell_page_def split_bt_def)
  apply (rule ext)
  apply (simp add: split_root_page_def stale_empty_page_def empty_leaf_page_def)
  apply (intro conjI impI)
  apply (rule list_eq_byte_at, simp, simp add: byte_at_simps, arith?)+
  done



section \<open>The cursor on the file left by the duplicate insert (C3)\<close>

text \<open>
  In the file that the two inserts leave, the root has the cell (key 5, child 4) and
  right page 3; page 4 is the leaf with the entry, page 3 a leaf without cells, whose
  page still holds the bytes of the entry.
\<close>

definition split_root :: BTreeNode where
  "split_root = \<lparr>page = \<lparr>npage = 2, data = split_root_page\<rparr>, ntype = 0x05, free_offset = 14,
     n_cells = 1, cells_offset = 1016, right_page = 3, celloffset_array = 12\<rparr>"

definition stale_empty_node :: BTreeNode where
  "stale_empty_node = \<lparr>page = \<lparr>npage = 3, data = stale_empty_page\<rparr>, ntype = 0x0D,
     free_offset = 8, n_cells = 0, cells_offset = 1024, right_page = 0, celloffset_array = 8\<rparr>"

definition moved_node :: BTreeNode where
  "moved_node = \<lparr>page = \<lparr>npage = 4, data = one_cell_page\<rparr>, ntype = 0x0D, free_offset = 10,
     n_cells = 1, cells_offset = 416, right_page = 0, celloffset_array = 8\<rparr>"

lemma split_nodes:
  "chidb_Btree_getNodeByPage split_bt 2 = Inr split_root"
  "chidb_Btree_getNodeByPage split_bt 3 = Inr stale_empty_node"
  "chidb_Btree_getNodeByPage split_bt 4 = Inr moved_node"
  by (simp_all add: eval_defs split_bt_def split_root_page_def stale_empty_page_def
        one_cell_page_def split_root_def stale_empty_node_def moved_node_def)

lemma split_getCell:
  "chidb_Btree_getCell split_root 0 = Inr (pointer_cell 5 4)"
  "chidb_Btree_getCell moved_node 0 = Inr big_cell"
  "chidb_Btree_getCell stale_empty_node 0 = Inr big_cell"
  "chidb_Btree_getCell stale_empty_node 1 = Inl CHIDB_ECELLNO"
  by (simp_all add: chidb_Btree_getCell_def eval_defs split_root_page_def stale_empty_page_def
        one_cell_page_def split_root_def stale_empty_node_def moved_node_def
        pointer_cell_def big_cell_def)

lemma split_fields:
  "ntype split_root = 0x05" "right_page split_root = 3" "n_cells split_root = 1"
  "ntype stale_empty_node = 0x0D" "n_cells stale_empty_node = 0"
  "ntype moved_node = 0x0D" "n_cells moved_node = 1"
  by (simp_all add: split_root_def stale_empty_node_def moved_node_def)

lemma split_cells:
  "node_cells split_root = [pointer_cell 5 4]"
  "node_cells stale_empty_node = []"
  "node_cells moved_node = [big_cell]"
  by (simp_all add: node_cells_def split_fields split_getCell cell_of_def)

lemma split_tree_cells: "tree_cells 2 split_bt 2 = [big_cell]"
  by (simp add: tree_cells_pos split_nodes split_cells split_fields lax_fields format_defs)

definition split_cursor :: chidb_dbm_cursor_t where
  "split_cursor = \<lparr>cursor_type = CURSOR_READ, root_page = 2,
     root_trail = [\<lparr>node = split_root, cell_num = 0\<rparr>, \<lparr>node = moved_node, cell_num = 0\<rparr>],
     cell = big_cell\<rparr>"

lemma split_rewind:
  "chidb_dbm_cursor_rewind split_bt (start_cursor 2) = Some (CHIDB_OK, split_cursor)"
  by (simp add: chidb_dbm_cursor_rewind_def chidb_dbm_trail_node_new_def start_cursor_def
        chidb_dbm_cursor_table_down.simps split_nodes split_fields split_getCell
        cell_of_def format_defs lax_fields split_cursor_def)

lemma split_sweep:
  "map_option (map_prod (map ckey) id) (cursor_sweep 2 split_bt split_cursor)
     = Some ([5], CHIDB_ECELLNO)"
  by (simp add: cursor_sweep_pos chidb_dbm_cursor_table_move_def chidb_dbm_cursor_table_up.simps
        chidb_dbm_trail_node_new_def chidb_dbm_cursor_table_down.simps
        split_nodes split_fields split_getCell
        cell_of_def format_defs lax_fields split_cursor_def Let_def big_cell_def)

text \<open>
  C3. The table of that file holds one leaf cell, with key 5. The rewind leaves it in
  \<open>cell\<close>. The first forward move goes on to the leaf without cells and returns
  \<open>CHIDB_OK\<close> with the cell that \<^verbatim>\<open>chidb_Btree_getCell\<close> decodes for cell number 0 of
  that leaf, again with key 5; the second returns \<open>CHIDB_ECELLNO\<close>. No move returns
  \<open>CHIDB_CANTMOVE\<close>.
\<close>

theorem cursor_after_duplicate_insert:
  "chidb_Btree_insertInTable empty_bt 2 5 (replicate 600 9) 600 = Some (CHIDB_OK, full_bt) \<and>
   chidb_Btree_insertInTable full_bt 2 5 (replicate 600 9) 600
     = Some (CHIDB_EDUPLICATE, split_bt) \<and>
   map ckey (tree_cells 2 split_bt 2) = [5] \<and>
   chidb_dbm_cursor_rewind split_bt (start_cursor 2) = Some (CHIDB_OK, split_cursor) \<and>
   ckey (cell split_cursor) = 5 \<and>
   map_option (map_prod (map ckey) id) (cursor_sweep 2 split_bt split_cursor)
     = Some ([5], CHIDB_ECELLNO)"
  by (simp add: first_insert duplicate_insert_state split_tree_cells split_rewind split_sweep)
     (simp add: split_cursor_def big_cell_def)


section \<open>Inserting a cell that fits the page exactly (C5)\<close>

text \<open>
  \<^verbatim>\<open>would_overflow\<close> compares the length of the cell with the gap between the offset
  array and the cells, without the two bytes of the new entry of the offset array. A
  cell of 1016 bytes passes it on an empty leaf of 1024 bytes: the cell is stored at
  offset 8, and its offset then over its first two bytes. The next insert sees a gap
  of \<open>8 - 10\<close>, as an unsigned 16-bit number, and stores its cell over the page header.
\<close>

definition tight_page :: "byte list" where
  "tight_page =
     [0x0D, 0x00, 0x0A, 0x00, 0x01, 0x00, 0x08, 0x00, 0x00, 0x08, 0x87, 0x70,
      0x80, 0x80, 0x80, 0x01] @ replicate 1008 7"

definition tight_bt :: BTree where
  "tight_bt =
     \<lparr>page_size = 1024, n_pages = 2,
      pages = (\<lambda>_. [])(1 := canonical_header @ [0x0D, 0, 108, 0, 0, 0x04, 0, 0] @ replicate 916 0,
                        2 := tight_page)\<rparr>"

definition broken_page :: "byte list" where
  "broken_page =
     [0x0D, 0x00, 0x0C, 0x00, 0x02, 0x00, 0x00, 0x02, 0x00, 0x08, 0x00, 0x00,
      0x80, 0x80, 0x80, 0x01] @ replicate 1008 7"

definition broken_bt :: BTree where
  "broken_bt =
     \<lparr>page_size = 1024, n_pages = 2,
      pages = (\<lambda>_. [])(1 := canonical_header @ [0x0D, 0, 108, 0, 0, 0x04, 0, 0] @ replicate 916 0,
                        2 := broken_page)\<rparr>"

lemma tight_insert:
  "chidb_Btree_insertInTable empty_bt 2 1 (replicate 1008 7) 1008 = Some (CHIDB_OK, tight_bt)"
  apply (simp add: insert_defs eval_defs empty_bt_def empty_leaf_page_def tight_bt_def)
  apply (rule fun_upd_same)
  apply (rule list_eq_byte_at)
   apply (simp add: tight_page_def)
  apply (simp add: byte_at_simps tight_page_def)
  apply arith?
  done

lemma broken_insert:
  "chidb_Btree_insertInTable tight_bt 2 2 [] 0 = Some (CHIDB_OK, broken_bt)"
  apply (simp add: insert_defs eval_defs tight_bt_def tight_page_def broken_bt_def)
  apply (rule fun_upd_same)
  apply (rule list_eq_byte_at)
   apply (simp add: broken_page_def)
  apply (simp add: byte_at_simps broken_page_def)
  apply arith?
  done

definition broken_node :: BTreeNode where
  "broken_node = \<lparr>page = \<lparr>npage = 2, data = broken_page\<rparr>, ntype = 0x0D, free_offset = 12,
     n_cells = 2, cells_offset = 0, right_page = 0, celloffset_array = 8\<rparr>"

lemma broken_root: "chidb_Btree_getNodeByPage broken_bt 2 = Inr broken_node"
  by (simp add: eval_defs broken_bt_def broken_page_def broken_node_def)

definition clobbered_cell :: BTreeCell where
  "clobbered_cell = \<lparr>ctype = 0x0D, ckey = 1, child_page = 0, data_size = 131072,
     cdata = replicate 1008 7, keyPk = 0\<rparr>"

definition header_cell :: BTreeCell where
  "header_cell = \<lparr>ctype = 0x0D, ckey = 4194306, child_page = 0, data_size = 27264512,
     cdata = [0x00, 0x08, 0x00, 0x00, 0x80, 0x80, 0x80, 0x01] @ replicate 1008 7, keyPk = 0\<rparr>"

lemma broken_cells: "node_cells broken_node = [clobbered_cell, header_cell]"
  by (simp add: node_cells_def chidb_Btree_getCell_def cell_of_def eval_defs upt_2
        broken_node_def broken_page_def clobbered_cell_def header_cell_def)

lemma broken_fields: "ntype broken_node = 0x0D" "right_page broken_node = 0"
  by (simp_all add: broken_node_def)

lemma broken_find_2:
  "chidb_Btree_find broken_bt 2 2 = Some ((CHIDB_ENOTFOUND, None), broken_bt)"
  by (simp add: chidb_Btree_find.simps find_loop_cells broken_root broken_cells broken_fields
        format_defs clobbered_cell_def header_cell_def del: find_loop.simps)

lemma broken_find_1:
  "chidb_Btree_find broken_bt 2 1 = Some ((CHIDB_OK, Some ([], 0)), broken_bt)"
  by (simp add: chidb_Btree_find.simps find_loop_cells broken_root broken_cells broken_fields
        format_defs clobbered_cell_def header_cell_def del: find_loop.simps)

text \<open>
  C5. Two inserts into the empty table, of key 1 with 1008 bytes of payload and of
  key 2 with an empty payload, both return \<open>CHIDB_OK\<close>. Afterwards
  \<^verbatim>\<open>chidb_Btree_find\<close> through the root returns \<open>CHIDB_ENOTFOUND\<close> for key 2, and for
  key 1 a payload of size 0.
\<close>

theorem insert_exact_fit_loses_key:
  "chidb_Btree_insertInTable empty_bt 2 1 (replicate 1008 7) 1008 = Some (CHIDB_OK, tight_bt) \<and>
   chidb_Btree_insertInTable tight_bt 2 2 [] 0 = Some (CHIDB_OK, broken_bt) \<and>
   chidb_Btree_find broken_bt 2 2 = Some ((CHIDB_ENOTFOUND, None), broken_bt) \<and>
   chidb_Btree_find broken_bt 2 1 = Some ((CHIDB_OK, Some ([], 0)), broken_bt)"
  by (simp add: tight_insert broken_insert broken_find_2 broken_find_1)

end
